theory Spec2Isabelle
  imports Complex_Main
begin

section \<open>Service supervision (tron/service.py)\<close>

subsection \<open>Named states and their transition tables\<close>

text \<open>
  Events are the names passed to \<open>machine.transition\<close>; both machines use the same
  generic state machine, so one type of events serves both.
\<close>

datatype event =
  Start | Monitor | Up | Down | Stop | Monitor_fail
  | All_up | Failed | All_failed | All_down

datatype instance_state =
  Inst_down | Inst_up | Inst_failed | Inst_stopping | Inst_monitoring | Inst_starting
  | Inst_unknown

datatype service_state =
  Svc_down | Svc_up | Svc_degraded | Svc_stopping | Svc_failed | Svc_starting

text \<open>
  The tables as the class bodies of \<open>ServiceInstance\<close> and \<open>Service\<close> leave them, the
  later item assignments and \<open>update\<close> calls included. Each state is a dictionary from
  event to target state.
\<close>

fun instance_table :: "instance_state \<Rightarrow> event \<rightharpoonup> instance_state" where
  "instance_table Inst_down = [Start \<mapsto> Inst_starting]"
| "instance_table Inst_up = [Stop \<mapsto> Inst_stopping, Monitor \<mapsto> Inst_monitoring]"
| "instance_table Inst_failed = [Stop \<mapsto> Inst_down, Up \<mapsto> Inst_up]"
| "instance_table Inst_stopping = [Down \<mapsto> Inst_down]"
| "instance_table Inst_monitoring =
     [Down \<mapsto> Inst_failed, Stop \<mapsto> Inst_stopping, Up \<mapsto> Inst_up,
      Monitor_fail \<mapsto> Inst_unknown]"
| "instance_table Inst_starting =
     [Down \<mapsto> Inst_failed, Monitor \<mapsto> Inst_monitoring, Stop \<mapsto> Inst_stopping]"
| "instance_table Inst_unknown = [Monitor \<mapsto> Inst_monitoring]"

fun service_table :: "service_state \<Rightarrow> event \<rightharpoonup> service_state" where
  "service_table Svc_down = [Start \<mapsto> Svc_starting]"
| "service_table Svc_up =
     [Stop \<mapsto> Svc_stopping, Failed \<mapsto> Svc_degraded, Down \<mapsto> Svc_degraded]"
| "service_table Svc_degraded =
     [Stop \<mapsto> Svc_stopping, All_up \<mapsto> Svc_up, All_failed \<mapsto> Svc_failed]"
| "service_table Svc_stopping = [All_down \<mapsto> Svc_down]"
| "service_table Svc_failed =
     [Stop \<mapsto> Svc_stopping, Up \<mapsto> Svc_degraded, Start \<mapsto> Svc_starting]"
| "service_table Svc_starting =
     [All_up \<mapsto> Svc_up, Failed \<mapsto> Svc_degraded, Stop \<mapsto> Svc_stopping]"

subsection \<open>Objects and the store\<close>

datatype error =
  InvalidStateError | AssertionError | UnboundLocalError | AttributeError
  | ZeroDivisionError | TypeError | ValueError

datatype action_kind = Monitor_action | Start_action | Stop_action

text \<open>
  An \<open>ActionCommand\<close>: its identifier \<open>"<service name>.<instance number>.<kind>"\<close> kept
  as its three parts, the command line, and the exit status that the executor writes
  before it signals COMPLETE.
\<close>

record action_command =
  action_service :: string
  action_instance :: int
  action_kind :: action_kind
  command_line :: string
  exit_status :: "int option"

text \<open>
  A \<open>ServiceInstance\<close>. A node is identified with its hostname. \<open>service\<close> is the
  reference to the owning \<open>Service\<close> object; \<open>listeners\<close> lists the services whose
  \<open>_instance_change\<close> is registered on the instance's machine for every transition.
  \<open>stop_action = None\<close> stands for the attribute not being set yet. The
  \<open>last_check\<close> timestamp is written and never read, and is left out.
\<close>

record service_instance =
  instance_number :: int
  node :: string
  service :: nat
  state :: instance_state
  listeners :: "nat list"
  monitor_action :: "action_command option"
  start_action :: "action_command option"
  stop_action :: "action_command option"

text \<open>
  A node pool: its nodes, and the nodes that successive \<open>next_round_robin\<close> calls
  return, as a parameter (the pool's module is not part of the sources).
\<close>

record node_pool =
  nodes :: "string list"
  round_robin :: "nat \<Rightarrow> string"
  round_robin_calls :: nat

text \<open>
  A \<open>Service\<close>. \<open>machine = None\<close> is the machine removed by \<open>absorb_previous\<close>.
  \<open>render\<close> stands for the \<open>%\<close> operator applied to a template and an instance's
  command context (an external collaborator): \<open>None\<close> is the \<open>KeyError\<close> of an
  unresolved variable. \<open>instances\<close> holds references to instance objects.
\<close>

record service_obj =
  name :: string
  command :: "string option"
  scheduler :: "string option"
  node_pool :: nat
  count :: int
  monitor_interval :: "int option"
  restart_interval :: "int option"
  restart_timer :: "nat option"
  machine :: "service_state option"
  pid_file_template :: "string option"
  render :: "string \<Rightarrow> service_instance \<Rightarrow> string option"
  instances :: "nat list"

datatype callback = Run_monitor nat | Restart_after_failure nat

datatype log_message =
  Monitor_action_exists | Pid_file_render_failed | No_pid_file_configured
  | Command_render_failed | Failed_to_start | Failed_to_stop | Failed_to_start_kill
  | Restarting_failed_instances | Cannot_build_instance | Only_found_instances
  | Node_not_found | Not_on_current_node | Node_has_too_many | Monitor_callback_exit

text \<open>
  The world: the three kinds of objects by reference, and what the code sends out:
  \<open>node_runs\<close> records every \<open>node.run(action)\<close>, \<open>call_later\<close> every
  \<open>reactor.callLater(delay, callback)\<close>, \<open>log\<close> every log line (by its message, the
  arguments left out).
\<close>

record world =
  instance_heap :: "nat \<Rightarrow> service_instance"
  next_instance :: nat
  service_heap :: "nat \<Rightarrow> service_obj"
  pool_heap :: "nat \<Rightarrow> node_pool"
  node_runs :: "(string \<times> action_command) list"
  call_later :: "(int \<times> callback) list"
  log :: "log_message list"

text \<open>
  A call either returns (\<open>Inr\<close>) or raises (\<open>Inl\<close>, with the world as it is at the
  raise).
\<close>

type_synonym 'a result = "(error \<times> world) + 'a"

definition and_then :: "'a result \<Rightarrow> ('a \<Rightarrow> 'b result) \<Rightarrow> 'b result" where
  "and_then r f = (case r of Inl e \<Rightarrow> Inl e | Inr x \<Rightarrow> f x)"

definition update_instance ::
  "nat \<Rightarrow> (service_instance \<Rightarrow> service_instance) \<Rightarrow> world \<Rightarrow> world" where
  "update_instance a f w = w\<lparr>instance_heap := (instance_heap w)(a := f (instance_heap w a))\<rparr>"

definition update_service :: "nat \<Rightarrow> (service_obj \<Rightarrow> service_obj) \<Rightarrow> world \<Rightarrow> world" where
  "update_service s f w = w\<lparr>service_heap := (service_heap w)(s := f (service_heap w s))\<rparr>"

definition write_log :: "log_message \<Rightarrow> world \<Rightarrow> world" where
  "write_log m w = w\<lparr>log := log w @ [m]\<rparr>"

definition service_of :: "world \<Rightarrow> nat \<Rightarrow> service_obj" where
  "service_of w a = service_heap w (service (instance_heap w a))"

subsection \<open>The state machine\<close>

text \<open>
  Modelled from the spec: \<open>StateMachine.transition\<close> (tron/utils/state.py is not part of
  the sources). The event is looked up in the current state's table; if present the
  state becomes the target and the listeners run, before \<open>transition\<close> returns; if
  absent the call does nothing.
\<close>

definition service_transition :: "nat \<Rightarrow> event \<Rightarrow> world \<Rightarrow> world result" where
  "service_transition s ev w =
     (case machine (service_heap w s) of
        None \<Rightarrow> Inl (AttributeError, w)
      | Some st \<Rightarrow>
          (case service_table st ev of
             None \<Rightarrow> Inr w
           | Some t \<Rightarrow> Inr (update_service s (\<lambda>v. v\<lparr>machine := Some t\<rparr>) w)))"

subsection \<open>Service._instance_change\<close>

definition instance_change :: "nat \<Rightarrow> world \<Rightarrow> world result" where
  "instance_change s w =
     (let live = filter (\<lambda>a. state (instance_heap w a) \<noteq> Inst_down)
                   (instances (service_heap w s));
          w1 = update_service s (\<lambda>v. v\<lparr>instances := live\<rparr>) w;
          is_failed = (\<lambda>a. state (instance_heap w a) = Inst_failed);
          is_up = (\<lambda>a. state (instance_heap w a) = Inst_up)
      in and_then
           (if live = [] then service_transition s All_down w1
            else if list_ex is_failed live then
              and_then (service_transition s Failed w1)
                (\<lambda>w2. if list_all is_failed live then service_transition s All_failed w2
                       else Inr w2)
            else if int (length live) < count (service_heap w s) then
              service_transition s Down (write_log Only_found_instances w1)
            else if list_all is_up live then service_transition s All_up w1
            else Inr w1)
           (\<lambda>w3. case machine (service_heap w3 s) of
                    None \<Rightarrow> Inl (AttributeError, w3)
                  | Some st \<Rightarrow>
                      if st = Svc_degraded \<or> st = Svc_failed then
                        (case restart_interval (service_heap w3 s) of
                           None \<Rightarrow> Inr w3
                         | Some delay \<Rightarrow>
                             if restart_timer (service_heap w3 s) = None then
                               Inr (update_service s
                                      (\<lambda>v. v\<lparr>restart_timer := Some (length (call_later w3))\<rparr>)
                                      (w3\<lparr>call_later :=
                                            call_later w3 @ [(delay, Restart_after_failure s)]\<rparr>))
                             else Inr w3)
                      else Inr w3))"

fun notify :: "nat list \<Rightarrow> world \<Rightarrow> world result" where
  "notify [] w = Inr w"
| "notify (s # ss) w = and_then (instance_change s w) (notify ss)"

definition instance_transition :: "nat \<Rightarrow> event \<Rightarrow> world \<Rightarrow> world result" where
  "instance_transition a ev w =
     (case instance_table (state (instance_heap w a)) ev of
        None \<Rightarrow> Inr w
      | Some t \<Rightarrow>
          notify (listeners (instance_heap w a)) (update_instance a (\<lambda>i. i\<lparr>state := t\<rparr>) w))"

subsection \<open>ServiceInstance\<close>

text \<open>
  The \<open>pid_file\<close> property. It logs on every read that yields nothing, so reading it
  changes the world. An empty template is as false as \<open>None\<close>.
\<close>

definition pid_file :: "nat \<Rightarrow> world \<Rightarrow> string option \<times> world" where
  "pid_file a w =
     (case pid_file_template (service_of w a) of
        None \<Rightarrow> (None, write_log No_pid_file_configured w)
      | Some t \<Rightarrow>
          if t = [] then (None, write_log No_pid_file_configured w)
          else (case render (service_of w a) t (instance_heap w a) of
                  None \<Rightarrow> (None, write_log Pid_file_render_failed w)
                | Some p \<Rightarrow> (Some p, w)))"

text \<open>
  The \<open>command\<close> property of an instance. Only \<open>KeyError\<close> is caught: applying \<open>%\<close> to a
  command that is \<open>None\<close> is a \<open>TypeError\<close>.
\<close>

definition instance_command :: "nat \<Rightarrow> world \<Rightarrow> (string option \<times> world) result" where
  "instance_command a w =
     (case command (service_of w a) of
        None \<Rightarrow> Inl (TypeError, w)
      | Some t \<Rightarrow>
          (case render (service_of w a) t (instance_heap w a) of
             None \<Rightarrow> Inr (None, write_log Command_render_failed w)
           | Some c \<Rightarrow> Inr (Some c, w)))"

definition queue_monitor :: "nat \<Rightarrow> world \<Rightarrow> world" where
  "queue_monitor a w =
     (let w1 = update_instance a (\<lambda>i. i\<lparr>monitor_action := None\<rparr>) w
      in case monitor_interval (service_of w1 a) of
           None \<Rightarrow> w1
         | Some delay \<Rightarrow>
             if delay > 0 then w1\<lparr>call_later := call_later w1 @ [(delay, Run_monitor a)]\<rparr>
             else w1)"

definition new_action :: "nat \<Rightarrow> action_kind \<Rightarrow> string \<Rightarrow> world \<Rightarrow> action_command" where
  "new_action a k c w =
     \<lparr>action_service = name (service_of w a),
      action_instance = instance_number (instance_heap w a),
      action_kind = k, command_line = c, exit_status = None\<rparr>"

text \<open>\<open>self.node.run(action)\<close>.\<close>

definition node_run :: "nat \<Rightarrow> action_command \<Rightarrow> world \<Rightarrow> world" where
  "node_run a act w = w\<lparr>node_runs := node_runs w @ [(node (instance_heap w a), act)]\<rparr>"

definition monitor_complete_failstart :: "nat \<Rightarrow> world \<Rightarrow> world result" where
  "monitor_complete_failstart a w =
     and_then (instance_transition a Monitor_fail w)
       (\<lambda>w1. Inr (update_instance a (\<lambda>i. i\<lparr>monitor_action := None\<rparr>) (queue_monitor a w1)))"

definition run_monitor :: "nat \<Rightarrow> world \<Rightarrow> world result" where
  "run_monitor a w =
     (if monitor_action (instance_heap w a) \<noteq> None then
        Inr (write_log Monitor_action_exists w)
      else
        and_then (instance_transition a Monitor w)
          (\<lambda>w1. case pid_file a w1 of
                   (None, w2) \<Rightarrow> monitor_complete_failstart a w2
                 | (Some p, w2) \<Rightarrow>
                     (let act = new_action a Monitor_action
                                  (''cat '' @ p @ '' | xargs kill -0'') w2
                      in Inr (node_run a act
                                (update_instance a (\<lambda>i. i\<lparr>monitor_action := Some act\<rparr>) w2)))))"

definition monitor_complete_callback :: "nat \<Rightarrow> world \<Rightarrow> world result" where
  "monitor_complete_callback a w =
     (case monitor_action (instance_heap w a) of
        None \<Rightarrow> Inl (AssertionError, w)
      | Some act \<Rightarrow>
          and_then
            (let w1 = write_log Monitor_callback_exit w
             in if exit_status act \<noteq> Some 0 then instance_transition a Down w1
                else and_then (instance_transition a Up w1) (\<lambda>w2. Inr (queue_monitor a w2)))
            (\<lambda>w3. Inr (update_instance a (\<lambda>i. i\<lparr>monitor_action := None\<rparr>) w3)))"

definition kill_instance :: "nat \<Rightarrow> world \<Rightarrow> world result" where
  "kill_instance a w =
     (case pid_file a w of
        (None, w1) \<Rightarrow> Inl (AssertionError, snd (pid_file a w1))
      | (Some p, w1) \<Rightarrow>
          if p = [] then Inl (AssertionError, snd (pid_file a w1))
          else
            (let act = new_action a Stop_action (''cat '' @ p @ '' | xargs kill'') w1
             in Inr (node_run a act
                       (update_instance a (\<lambda>i. i\<lparr>stop_action := Some act\<rparr>) w1))))"

definition start_complete_failstart :: "nat \<Rightarrow> world \<Rightarrow> world result" where
  "start_complete_failstart a w =
     and_then (instance_transition a Down (write_log Failed_to_start w))
       (\<lambda>w1. Inr (update_instance a (\<lambda>i. i\<lparr>start_action := None\<rparr>) w1))"

definition start :: "nat \<Rightarrow> world \<Rightarrow> world result" where
  "start a w =
     (if state (instance_heap w a) \<noteq> Inst_down then Inl (InvalidStateError, w)
      else
        and_then (instance_transition a Start w)
          (\<lambda>w1. and_then (instance_command a w1)
             (\<lambda>(c, w2). case c of
                  None \<Rightarrow> start_complete_failstart a w2
                | Some cmd \<Rightarrow>
                    (let act = new_action a Start_action cmd w2
                     in Inr (node_run a act
                               (update_instance a (\<lambda>i. i\<lparr>start_action := Some act\<rparr>) w2))))))"

definition start_complete_callback :: "nat \<Rightarrow> world \<Rightarrow> world result" where
  "start_complete_callback a w =
     (case start_action (instance_heap w a) of
        None \<Rightarrow> Inl (AttributeError, w)
      | Some act \<Rightarrow>
          and_then
            (if exit_status act \<noteq> Some 0 then instance_transition a Down w
             else if state (instance_heap w a) = Inst_stopping then kill_instance a w
             else Inr (queue_monitor a w))
            (\<lambda>w1. Inr (update_instance a (\<lambda>i. i\<lparr>start_action := None\<rparr>) w1)))"

definition stop :: "nat \<Rightarrow> world \<Rightarrow> world result" where
  "stop a w =
     and_then (instance_transition a Stop w)
       (\<lambda>w1. if state (instance_heap w1 a) = Inst_stopping then kill_instance a w1
              else Inr w1)"

definition stop_complete_callback :: "nat \<Rightarrow> world \<Rightarrow> world result" where
  "stop_complete_callback a w =
     (case stop_action (instance_heap w a) of
        None \<Rightarrow> Inl (AttributeError, w)
      | Some act \<Rightarrow>
          (let w1 = (if exit_status act \<noteq> Some 0 then write_log Failed_to_stop w else w)
           in Inr (update_instance a (\<lambda>i. i\<lparr>stop_action := None\<rparr>) (queue_monitor a w1))))"

definition stop_complete_failstart :: "nat \<Rightarrow> world \<Rightarrow> world result" where
  "stop_complete_failstart a w = Inr (queue_monitor a (write_log Failed_to_start_kill w))"

subsection \<open>Node pools\<close>

text \<open>
  Modelled from the spec: \<open>NodePool.next_round_robin\<close> and lookup by hostname (the
  pool's module is not part of the sources). Selection returns the next node of the
  pool's sequence; lookup returns the node of that hostname, or nothing (the not-found
  signal, a \<open>KeyError\<close> that its callers catch).
\<close>

definition next_round_robin :: "nat \<Rightarrow> world \<Rightarrow> string \<times> world" where
  "next_round_robin p w =
     (let pool = pool_heap w p
      in (round_robin pool (round_robin_calls pool),
          w\<lparr>pool_heap :=
               (pool_heap w)(p := pool\<lparr>round_robin_calls := Suc (round_robin_calls pool)\<rparr>)\<rparr>))"

definition pool_lookup :: "node_pool \<Rightarrow> string \<Rightarrow> string option" where
  "pool_lookup pool h = find (\<lambda>n. n = h) (nodes pool)"

subsection \<open>Service\<close>

definition sort_instances :: "nat \<Rightarrow> world \<Rightarrow> world" where
  "sort_instances s w =
     update_service s
       (\<lambda>v. v\<lparr>instances := sort_key (\<lambda>a. instance_number (instance_heap w a)) (instances v)\<rparr>) w"

definition clear_failed_instances :: "nat \<Rightarrow> world \<Rightarrow> world" where
  "clear_failed_instances s w =
     update_service s
       (\<lambda>v. v\<lparr>instances :=
                 filter (\<lambda>a. state (instance_heap w a) \<noteq> Inst_failed) (instances v)\<rparr>) w"

definition create_instance :: "nat \<Rightarrow> string \<Rightarrow> int \<Rightarrow> world \<Rightarrow> nat \<times> world" where
  "create_instance s nd n w =
     (let a = next_instance w;
          w1 = w\<lparr>instance_heap :=
                   (instance_heap w)
                     (a := \<lparr>instance_number = n, node = nd, service = s, state = Inst_down,
                            listeners = [], monitor_action = None, start_action = None,
                            stop_action = None\<rparr>),
                 next_instance := Suc a\<rparr>;
          w2 = update_service s (\<lambda>v. v\<lparr>instances := instances v @ [a]\<rparr>) w1;
          w3 = sort_instances s w2
      in (a, update_instance a (\<lambda>i. i\<lparr>listeners := listeners i @ [s]\<rparr>) w3))"

definition find_unused_instance_number :: "nat \<Rightarrow> world \<Rightarrow> int option" where
  "find_unused_instance_number s w =
     (let available_instance_numbers =
            set [0..count (service_heap w s) - 1]
            - set (map (\<lambda>a. instance_number (instance_heap w a)) (instances (service_heap w s)))
      in if available_instance_numbers = {} then None
         else Some (Min available_instance_numbers))"

definition build_instance :: "nat \<Rightarrow> world \<Rightarrow> (nat option \<times> world) result" where
  "build_instance s w =
     (case next_round_robin (node_pool (service_heap w s)) w of
        (nd, w1) \<Rightarrow>
          (case find_unused_instance_number s w1 of
             None \<Rightarrow> Inr (None, write_log Cannot_build_instance w1)
           | Some n \<Rightarrow>
               (case create_instance s nd n w1 of
                  (a, w2) \<Rightarrow> and_then (start a w2) (\<lambda>w3. Inr (Some a, w3)))))"

text \<open>\<open>for _ in range(0, n): self.build_instance()\<close>\<close>

fun build_instances :: "nat \<Rightarrow> nat \<Rightarrow> world \<Rightarrow> world result" where
  "build_instances 0 s w = Inr w"
| "build_instances (Suc n) s w =
     and_then (build_instance s w) (\<lambda>(_, w1). build_instances n s w1)"

definition service_start :: "nat \<Rightarrow> world \<Rightarrow> world result" where
  "service_start s w =
     (let w1 = update_service s (\<lambda>v. v\<lparr>restart_timer := None\<rparr>) w;
          w2 = clear_failed_instances s w1;
          needed_instances_count =
            count (service_heap w2 s) - int (length (instances (service_heap w2 s)))
      in and_then
           (if needed_instances_count > 0 then
              build_instances (nat needed_instances_count) s w2
            else Inr w2)
           (service_transition s Start))"

definition restart_after_failure :: "nat \<Rightarrow> world \<Rightarrow> world result" where
  "restart_after_failure s w =
     (if restart_timer (service_heap w s) = None then Inr w
      else if machine (service_heap w s) = Some Svc_degraded
              \<or> machine (service_heap w s) = Some Svc_failed then
        service_start s (write_log Restarting_failed_instances w)
      else Inr (update_service s (\<lambda>v. v\<lparr>restart_timer := None\<rparr>) w))"

text \<open>\<open>for service_instance in xs: service_instance.stop()\<close>\<close>

fun stop_each :: "nat list \<Rightarrow> world \<Rightarrow> world result" where
  "stop_each [] w = Inr w"
| "stop_each (a # as) w = and_then (stop a w) (stop_each as)"

definition service_stop :: "nat \<Rightarrow> world \<Rightarrow> world result" where
  "service_stop s w =
     and_then (service_transition s Stop w)
       (\<lambda>w1. and_then (stop_each (instances (service_heap w1 s)) w1)
          (\<lambda>w2. if machine (service_heap w2 s) = Some Svc_stopping
                    \<and> instances (service_heap w2 s) = [] then
                   service_transition s All_down w2
                 else Inr w2))"

subsection \<open>Snapshot and restore\<close>

text \<open>
  Modelled from the spec: the name of a state and \<open>named_event_by_name\<close>
  (tron/utils/state.py is not part of the sources). A stored name is mapped back to the
  state of that name among those reachable from the starting state \<open>down\<close>, which are
  all six; an unknown name is an error.
\<close>

fun service_state_name :: "service_state \<Rightarrow> string" where
  "service_state_name Svc_down = ''down''"
| "service_state_name Svc_up = ''up''"
| "service_state_name Svc_degraded = ''degraded''"
| "service_state_name Svc_stopping = ''stopping''"
| "service_state_name Svc_failed = ''failed''"
| "service_state_name Svc_starting = ''starting''"

fun instance_state_name :: "instance_state \<Rightarrow> string" where
  "instance_state_name Inst_down = ''down''"
| "instance_state_name Inst_up = ''up''"
| "instance_state_name Inst_failed = ''failed''"
| "instance_state_name Inst_stopping = ''stopping''"
| "instance_state_name Inst_monitoring = ''monitoring''"
| "instance_state_name Inst_starting = ''starting''"
| "instance_state_name Inst_unknown = ''unknown''"

definition named_event_by_name :: "string \<Rightarrow> service_state option" where
  "named_event_by_name n =
     find (\<lambda>st. service_state_name st = n)
       [Svc_down, Svc_starting, Svc_up, Svc_degraded, Svc_stopping, Svc_failed]"

record instance_data =
  data_node :: string
  data_instance_number :: int
  data_instance_state :: string

record service_data =
  data_state :: string
  data_instances :: "instance_data list"

definition data :: "nat \<Rightarrow> world \<Rightarrow> service_data result" where
  "data s w =
     (case machine (service_heap w s) of
        None \<Rightarrow> Inl (AttributeError, w)
      | Some st \<Rightarrow>
          Inr \<lparr>data_state = service_state_name st,
               data_instances =
                 map (\<lambda>a. \<lparr>data_node = node (instance_heap w a),
                           data_instance_number = instance_number (instance_heap w a),
                           data_instance_state = instance_state_name (state (instance_heap w a))\<rparr>)
                   (instances (service_heap w s))\<rparr>)"

text \<open>The loop of \<open>restore\<close> over the persisted instance records.\<close>

fun restore_instances :: "nat \<Rightarrow> instance_data list \<Rightarrow> world \<Rightarrow> world result" where
  "restore_instances s [] w = Inr w"
| "restore_instances s (d # ds) w =
     (case pool_lookup (pool_heap w (node_pool (service_heap w s))) (data_node d) of
        None \<Rightarrow> restore_instances s ds (write_log Node_not_found w)
      | Some nd \<Rightarrow>
          (case create_instance s nd (data_instance_number d) w of
             (a, w1) \<Rightarrow>
               and_then
                 (run_monitor a (update_instance a (\<lambda>i. i\<lparr>state := Inst_monitoring\<rparr>) w1))
                 (restore_instances s ds)))"

definition restore :: "nat \<Rightarrow> service_data \<Rightarrow> world \<Rightarrow> world result" where
  "restore s d w =
     (case named_event_by_name (data_state d) of
        None \<Rightarrow> Inl (ValueError, w)
      | Some st \<Rightarrow>
          (case machine (service_heap w s) of
             None \<Rightarrow> Inl (AttributeError, w)
           | Some _ \<Rightarrow>
               (let w1 = update_service s (\<lambda>v. v\<lparr>machine := Some st\<rparr>) w
                in if st = Svc_down then Inr w1
                   else and_then (restore_instances s (data_instances d) w1)
                          (\<lambda>w2. Inr (sort_instances s w2)))))"

subsection \<open>The aggregate state, as the specification words it\<close>

text \<open>
  \<open>fire\<close> is the state a machine is in after an event: the target of the table, or the
  same state when the table has no entry. \<open>aggregate_events\<close> lists the events that an
  instance change fires, by the priority of the specification: no instance left,
  \<open>all_down\<close>; some instance failed, \<open>failed\<close>, and \<open>all_failed\<close> after it when all
  are; fewer instances than the target count, \<open>down\<close>; all up, \<open>all_up\<close>.
  \<open>arm_restart_timer\<close> arms the restart timer of a service that is degraded or failed,
  has a restart interval and has no timer pending.
\<close>

definition fire :: "service_state \<Rightarrow> event \<Rightarrow> service_state" where
  "fire st ev = (case service_table st ev of None \<Rightarrow> st | Some t \<Rightarrow> t)"

definition aggregate_events :: "instance_state list \<Rightarrow> int \<Rightarrow> event list" where
  "aggregate_events live n =
     (if live = [] then [All_down]
      else if list_ex (\<lambda>x. x = Inst_failed) live then
        (if list_all (\<lambda>x. x = Inst_failed) live then [Failed, All_failed] else [Failed])
      else if int (length live) < n then [Down]
      else if list_all (\<lambda>x. x = Inst_up) live then [All_up]
      else [])"

definition arm_restart_timer :: "nat \<Rightarrow> world \<Rightarrow> world" where
  "arm_restart_timer s w =
     (case restart_interval (service_heap w s) of
        None \<Rightarrow> w
      | Some delay \<Rightarrow>
          if (machine (service_heap w s) = Some Svc_degraded
              \<or> machine (service_heap w s) = Some Svc_failed)
             \<and> restart_timer (service_heap w s) = None
          then update_service s (\<lambda>v. v\<lparr>restart_timer := Some (length (call_later w))\<rparr>)
                 (w\<lparr>call_later := call_later w @ [(delay, Restart_after_failure s)]\<rparr>)
          else w)"

section \<open>Observations and example worlds\<close>

subsection \<open>Reading a result and a world\<close>

text \<open>
  The error a call raised, the world at the raise, and what a call returned.
\<close>

definition raised :: "'a result \<Rightarrow> error option" where
  "raised r = (case r of Inl (e, _) \<Rightarrow> Some e | Inr _ \<Rightarrow> None)"

definition world_at_raise :: "world \<Rightarrow> world result \<Rightarrow> world" where
  "world_at_raise w0 r = (case r of Inl (_, w) \<Rightarrow> w | Inr _ \<Rightarrow> w0)"

definition returned :: "'a result \<Rightarrow> 'a option" where
  "returned r = (case r of Inl _ \<Rightarrow> None | Inr x \<Rightarrow> Some x)"

text \<open>
  The world that a call leaves behind, whether it returned or raised; \<open>outcome_snd\<close> is
  the same for a call that returns a value with the world.
\<close>

definition outcome :: "world result \<Rightarrow> world" where
  "outcome r = (case r of Inl (_, w) \<Rightarrow> w | Inr w \<Rightarrow> w)"

definition outcome_snd :: "('a \<times> world) result \<Rightarrow> world" where
  "outcome_snd r = (case r of Inl (_, w) \<Rightarrow> w | Inr (_, w) \<Rightarrow> w)"

text \<open>The number of action slots of an instance that hold an action.\<close>

definition outstanding :: "service_instance \<Rightarrow> nat" where
  "outstanding i =
     (if monitor_action i \<noteq> None then 1 else 0)
     + (if start_action i \<noteq> None then 1 else 0)
     + (if stop_action i \<noteq> None then 1 else 0)"

text \<open>
  The instances that an instance change keeps, and the aggregate state it computes
  from the state \<open>st\<close> of the service machine.
\<close>

definition live_instances :: "nat \<Rightarrow> world \<Rightarrow> nat list" where
  "live_instances s w =
     filter (\<lambda>a. state (instance_heap w a) \<noteq> Inst_down) (instances (service_heap w s))"

definition aggregate_state :: "nat \<Rightarrow> service_state \<Rightarrow> world \<Rightarrow> service_state" where
  "aggregate_state s st w =
     foldl fire st
       (aggregate_events (map (\<lambda>a. state (instance_heap w a)) (live_instances s w))
          (count (service_heap w s)))"

text \<open>
  A dispatch by its node, the instance number and the kind of its action; and the
  instance numbers of a roster, in its order.
\<close>

definition dispatch_summary :: "string \<times> action_command \<Rightarrow> string \<times> int \<times> action_kind" where
  "dispatch_summary r = (fst r, action_instance (snd r), action_kind (snd r))"

definition instance_numbers :: "nat \<Rightarrow> world \<Rightarrow> int list" where
  "instance_numbers s w =
     map (\<lambda>a. instance_number (instance_heap w a)) (instances (service_heap w s))"

subsection \<open>Example deployments\<close>

text \<open>
  Service 1 is the running service \<open>web\<close>, in state \<open>up\<close> with instances 0 and 1 up on
  node \<open>n1\<close>. Service 0 is its replacement from a new configuration, not started yet.
  Templates render to themselves.
\<close>

definition running_instance :: "int \<Rightarrow> service_instance" where
  "running_instance k =
     \<lparr>instance_number = k, node = ''n1'', service = 1, state = Inst_up, listeners = [1],
      monitor_action = None, start_action = None, stop_action = None\<rparr>"

definition web_service :: "string \<Rightarrow> int \<Rightarrow> service_obj" where
  "web_service cmd n =
     \<lparr>name = ''web'', command = Some cmd, scheduler = None, node_pool = 0, count = n,
      monitor_interval = Some 30, restart_interval = Some 60, restart_timer = None,
      machine = Some Svc_down, pid_file_template = Some ''pid'',
      render = (\<lambda>t i. Some t), instances = []\<rparr>"

definition deployment :: "service_obj \<Rightarrow> service_obj \<Rightarrow> world" where
  "deployment new old =
     \<lparr>instance_heap = (\<lambda>a. running_instance (int a)),
      next_instance = 2,
      service_heap = (\<lambda>_. old)(0 := new),
      pool_heap = (\<lambda>_. \<lparr>nodes = [''n1''], round_robin = (\<lambda>_. ''n1''), round_robin_calls = 0\<rparr>),
      node_runs = [], call_later = [], log = []\<rparr>"

definition redeploy_changed_command :: world where
  "redeploy_changed_command =
     deployment (web_service ''serve --v2'' 2)
       ((web_service ''serve'' 2)\<lparr>machine := Some Svc_up, instances := [0, 1]\<rparr>)"

text \<open>
  More example worlds: the service \<open>web\<close> running with both instances up; the same
  with instance 0 failed; and a service of one instance that has just created it.
\<close>

definition running_world :: world where
  "running_world =
     deployment ((web_service ''serve'' 2)\<lparr>machine := Some Svc_up, instances := [0, 1]\<rparr>)
       ((web_service ''serve'' 2)\<lparr>machine := Some Svc_up, instances := [0, 1]\<rparr>)"

definition failed_world :: world where
  "failed_world = update_instance 0 (\<lambda>i. i\<lparr>state := Inst_failed\<rparr>) running_world"

definition fresh_world :: world where
  "fresh_world =
     snd (create_instance 1 ''n1'' 0 (deployment (web_service ''serve'' 1) (web_service ''serve'' 1)))"


text \<open>Scenario B: a service of one instance, up, whose instance has just failed.\<close>

definition scenario_b :: world where
  "scenario_b =
     update_instance 0 (\<lambda>i. i\<lparr>state := Inst_failed\<rparr>)
       (deployment ((web_service ''serve'' 1)\<lparr>machine := Some Svc_up, instances := [0]\<rparr>)
          ((web_service ''serve'' 1)\<lparr>machine := Some Svc_up, instances := [0]\<rparr>))"

text \<open>
  Two worlds for a restart of the daemon: service 1 holds the state to snapshot (up,
  two instances), service 0 is the fresh service of the same configuration that the
  snapshot is restored into. In the second world the configuration has no pid file,
  and the instances of service 1 are in \<open>unknown\<close>, as a restore leaves them.
\<close>

definition restart_world :: world where
  "restart_world =
     deployment (web_service ''serve'' 2)
       ((web_service ''serve'' 2)\<lparr>machine := Some Svc_up, instances := [0, 1]\<rparr>)"

definition restart_world_no_pid_file :: world where
  "restart_world_no_pid_file =
     (deployment ((web_service ''serve'' 2)\<lparr>pid_file_template := None\<rparr>)
        ((web_service ''serve'' 2)
           \<lparr>pid_file_template := None, machine := Some Svc_up, instances := [0, 1]\<rparr>))
     \<lparr>instance_heap := (\<lambda>a. (running_instance (int a))\<lparr>state := Inst_unknown\<rparr>)\<rparr>"

text \<open>
  Service 1 has the target count 3 and holds instances number 0 and 2 (number 1 went
  down and was dropped); service 0 is its replacement with the target count 2.
\<close>

definition shrunk_world :: world where
  "shrunk_world =
     (deployment (web_service ''serve'' 2)
        ((web_service ''serve'' 3)\<lparr>machine := Some Svc_degraded, instances := [0, 2]\<rparr>))
     \<lparr>next_instance := 3\<rparr>"

text \<open>Scenario B after the instance change: the service has failed, its restart timer is armed.\<close>

definition all_failed_world :: world where
  "all_failed_world =
     (case instance_change 1 scenario_b of Inr w \<Rightarrow> w | Inl (_, w) \<Rightarrow> w)"

text \<open>
  A service of one instance, degraded, whose roster is empty (its instance was stopped
  and dropped) and whose command has a variable that the context does not resolve.
\<close>

definition degraded_unrenderable_world :: world where
  "degraded_unrenderable_world =
     deployment (web_service ''serve'' 1)
       ((web_service ''serve %(port)s'' 1)
          \<lparr>machine := Some Svc_degraded,
           render := (\<lambda>t i. if t = ''serve %(port)s'' then None else Some t)\<rparr>)"

text \<open>The service \<open>web\<close> of two instances, started from an empty roster.\<close>

definition started_world :: world where
  "started_world =
     outcome (service_start 1 (deployment (web_service ''serve'' 2) (web_service ''serve'' 2)))"

section \<open>The scheduling control loop (tron/mcp.py)\<close>

subsection \<open>sleep_time\<close>

text \<open>
  A \<open>datetime\<close> is a count of microseconds, the resolution of the type. Subtracting two
  gives a \<open>timedelta\<close>, which Python keeps normalised: \<open>0 \<le> seconds < 86400\<close> and
  \<open>0 \<le> microseconds < 1000000\<close>, the sign carried by \<open>days\<close>. The floating-point
  arithmetic of \<open>sleep_time\<close> is taken as exact arithmetic on the reals.
\<close>

record timedelta =
  days :: int
  seconds :: int
  microseconds :: int

definition datetime_sub :: "int \<Rightarrow> int \<Rightarrow> timedelta" where
  "datetime_sub a b =
     (let d = a - b
      in \<lparr>days = d div 86400000000,
          seconds = (d mod 86400000000) div 1000000,
          microseconds = d mod 1000000\<rparr>)"

definition SECS_PER_DAY :: int where
  "SECS_PER_DAY = 86400"

definition MICRO_SEC :: real where
  "MICRO_SEC = 1 / 1000000"

text \<open>\<open>current_time\<close> is the reading of the clock when \<open>sleep_time\<close> is called.\<close>

definition sleep_time :: "int \<Rightarrow> int \<Rightarrow> real" where
  "sleep_time current_time run_time =
     (let sleep = datetime_sub run_time current_time;
          secs = real_of_int (days sleep * SECS_PER_DAY + seconds sleep)
                 + real_of_int (microseconds sleep) * MICRO_SEC
      in max 0 secs)"

subsection \<open>StateHandler.store_data\<close>

datatype mcp_callback = Store_data | Run_job nat

text \<open>
  The state handler as the parent process sees it, with what it sends out:
  \<open>forked\<close> lists the writer processes started, \<open>call_later\<close> the timers armed.
  \<open>written\<close> and \<open>exited\<close> describe the child's side of the fork.
\<close>

record state_handler =
  write_pid :: "int option"
  writing_enabled :: bool
  forked :: "int list"
  handler_call_later :: "(int \<times> mcp_callback) list"
  written :: nat
  exited :: bool

definition STATE_SLEEP :: int where
  "STATE_SLEEP = 3"

text \<open>
  \<open>waitpid p\<close> is the first component of \<open>os.waitpid(p, os.WNOHANG)\<close>: 0 while the
  child runs. \<open>pid\<close> is what \<open>os.fork()\<close> returns: the child's pid in the parent, 0 in
  the child, which writes the snapshot and exits.
\<close>

definition store_data :: "(int \<Rightarrow> int) \<Rightarrow> int \<Rightarrow> state_handler \<Rightarrow> state_handler" where
  "store_data waitpid pid h =
     (if \<not> writing_enabled h
         \<or> (case write_pid h of None \<Rightarrow> False | Some p \<Rightarrow> p \<noteq> 0 \<and> waitpid p = 0)
      then h
      else if pid \<noteq> 0 then
        h\<lparr>write_pid := Some pid, forked := forked h @ [pid],
          handler_call_later := handler_call_later h @ [(STATE_SLEEP, Store_data)]\<rparr>
      else h\<lparr>written := Suc (written h), exited := True\<rparr>)"

subsection \<open>Scheduling the next run\<close>

text \<open>
  Jobs and runs are external; the model keeps what \<open>mcp.py\<close> reads of them. A run is
  an object shared between the job's history and the timer that will fire it, so it has
  an identity.
\<close>

record run =
  run_id :: nat
  run_time :: int
  is_scheduled :: bool

record job =
  job_name :: string
  enabled :: bool
  runs :: "run list"

text \<open>
  The control program: the timers it has armed, its log lines, and the clock, whose
  successive readings are a parameter.
\<close>

record mcp =
  reactor_call_later :: "(real \<times> mcp_callback) list"
  scheduling_log :: "string list"
  clock :: "nat \<Rightarrow> int"
  clock_reads :: nat

definition current_time :: "mcp \<Rightarrow> int \<times> mcp" where
  "current_time m = (clock m (clock_reads m), m\<lparr>clock_reads := Suc (clock_reads m)\<rparr>)"

text \<open>
  Modelled from the spec: \<open>Run.set_run_time\<close> (the job module is not part of the
  sources). It sets the time of the run object, wherever the job's history holds it.
\<close>

definition set_run_time :: "run \<Rightarrow> int \<Rightarrow> job \<Rightarrow> run \<times> job" where
  "set_run_time r t j =
     (r\<lparr>run_time := t\<rparr>,
      j\<lparr>runs := map (\<lambda>x. if run_id x = run_id r then x\<lparr>run_time := t\<rparr> else x) (runs j)\<rparr>)"

definition schedule :: "run \<Rightarrow> mcp \<times> job \<Rightarrow> mcp \<times> job" where
  "schedule r mj =
     (case mj of (m, j) \<Rightarrow>
        (case current_time m of (now, m1) \<Rightarrow>
           (let sleep = sleep_time now (run_time r)
            in if sleep = 0 then
                 (case current_time m1 of (now2, m2) \<Rightarrow>
                    (case set_run_time r now2 j of (r1, j1) \<Rightarrow>
                       (m2\<lparr>reactor_call_later :=
                             reactor_call_later m2 @ [(sleep, Run_job (run_id r1))]\<rparr>, j1)))
               else (m1\<lparr>reactor_call_later :=
                          reactor_call_later m1 @ [(sleep, Run_job (run_id r))]\<rparr>, j))))"

text \<open>
  \<open>next_run\<close> is the job's own method, a parameter: it returns the next run, if any,
  and the job as the call leaves it.
\<close>

definition schedule_next_run :: "(job \<Rightarrow> run option \<times> job) \<Rightarrow> mcp \<times> job \<Rightarrow> mcp \<times> job" where
  "schedule_next_run next_run mj =
     (case mj of (m, j) \<Rightarrow>
        if runs j \<noteq> [] \<and> is_scheduled (hd (runs j)) then (m, j)
        else (case next_run j of
                (None, j1) \<Rightarrow> (m, j1)
              | (Some r, j1) \<Rightarrow>
                  schedule r (m\<lparr>scheduling_log := scheduling_log m @ job_name j1 # []\<rparr>, j1)))"

text \<open>An example job: its next run is always run 1, put at the head of the history.\<close>

definition nightly_next_run :: "job \<Rightarrow> run option \<times> job" where
  "nightly_next_run j =
     (Some \<lparr>run_id = 1, run_time = 10, is_scheduled = True\<rparr>,
      j\<lparr>runs := \<lparr>run_id = 1, run_time = 10, is_scheduled = True\<rparr> # runs j\<rparr>)"

definition idle_mcp :: mcp where
  "idle_mcp = \<lparr>reactor_call_later = [], scheduling_log = [], clock = (\<lambda>_. 0), clock_reads = 0\<rparr>"

section \<open>Facts about the service model\<close>

lemma and_then_Inl [simp]: "and_then (Inl e) f = Inl e"
  by (simp add: and_then_def)

lemma and_then_Inr [simp]: "and_then (Inr x) f = f x"
  by (simp add: and_then_def)

lemma update_service_fields [simp]:
  "instance_heap (update_service s f w) = instance_heap w"
  "next_instance (update_service s f w) = next_instance w"
  "service_heap (update_service s f w) = (service_heap w)(s := f (service_heap w s))"
  "pool_heap (update_service s f w) = pool_heap w"
  "node_runs (update_service s f w) = node_runs w"
  "call_later (update_service s f w) = call_later w"
  "log (update_service s f w) = log w"
  by (simp_all add: update_service_def)

lemma update_instance_fields [simp]:
  "instance_heap (update_instance a g w) = (instance_heap w)(a := g (instance_heap w a))"
  "next_instance (update_instance a g w) = next_instance w"
  "service_heap (update_instance a g w) = service_heap w"
  "pool_heap (update_instance a g w) = pool_heap w"
  "node_runs (update_instance a g w) = node_runs w"
  "call_later (update_instance a g w) = call_later w"
  "log (update_instance a g w) = log w"
  by (simp_all add: update_instance_def)

lemma write_log_fields [simp]:
  "instance_heap (write_log x w) = instance_heap w"
  "next_instance (write_log x w) = next_instance w"
  "service_heap (write_log x w) = service_heap w"
  "pool_heap (write_log x w) = pool_heap w"
  "node_runs (write_log x w) = node_runs w"
  "call_later (write_log x w) = call_later w"
  "log (write_log x w) = log w @ [x]"
  by (simp_all add: write_log_def)

lemma update_service_same:
  "f (service_heap w s) = service_heap w s \<Longrightarrow> update_service s f w = w"
  by (simp add: update_service_def)

lemma service_transition_fire:
  "machine (service_heap w s) = Some st \<Longrightarrow>
     service_transition s ev w = Inr (update_service s (\<lambda>v. v\<lparr>machine := Some (fire st ev)\<rparr>) w)"
proof -
  assume m: "machine (service_heap w s) = Some st"
  have same: "update_service s (\<lambda>v. v\<lparr>machine := Some st\<rparr>) w = w"
    by (rule update_service_same) (simp add: m [symmetric])
  show ?thesis
    by (cases "service_table st ev") (simp_all add: service_transition_def m fire_def same)
qed

lemma service_transition_eq:
  "service_transition s ev w =
     (case machine (service_heap w s) of
        None \<Rightarrow> Inl (AttributeError, w)
      | Some st \<Rightarrow> Inr (update_service s (\<lambda>v. v\<lparr>machine := Some (fire st ev)\<rparr>) w))"
proof (cases "machine (service_heap w s)")
  case None
  then show ?thesis by (simp add: service_transition_def)
next
  case (Some st)
  then show ?thesis by (simp add: service_transition_fire)
qed

lemma update_service_twice:
  "update_service s f (update_service s g w) = update_service s (\<lambda>v. f (g v)) w"
  by (simp add: update_service_def)

lemma list_ex_map_eq: "list_ex (\<lambda>x. x = c) (map f xs) = list_ex (\<lambda>a. f a = c) xs"
  by (induction xs) auto

lemma list_all_map_eq: "list_all (\<lambda>x. x = c) (map f xs) = list_all (\<lambda>a. f a = c) xs"
  by (induction xs) auto

lemma instance_change_result:
  assumes m: "machine (service_heap w s) = Some st"
  defines "live \<equiv> filter (\<lambda>a. state (instance_heap w a) \<noteq> Inst_down) (instances (service_heap w s))"
  defines "evs \<equiv> aggregate_events (map (\<lambda>a. state (instance_heap w a)) live) (count (service_heap w s))"
  defines "w1 \<equiv> update_service s (\<lambda>v. v\<lparr>instances := live\<rparr>) w"
  shows "instance_change s w =
     Inr (arm_restart_timer s
            (update_service s (\<lambda>v. v\<lparr>machine := Some (foldl fire st evs)\<rparr>)
               (if evs = [Down] then write_log Only_found_instances w1 else w1)))"
proof -
  have m1: "machine (service_heap w1 s) = Some st"
    by (simp add: w1_def m)
  have m2: "machine (service_heap (write_log Only_found_instances w1) s) = Some st"
    by (simp add: w1_def m)
  have same: "update_service s (\<lambda>v. v\<lparr>machine := Some st\<rparr>) w1 = w1"
    by (rule update_service_same) (simp add: m1 [symmetric])
  consider (empty) "live = []"
    | (failed) "live \<noteq> []" "list_ex (\<lambda>a. state (instance_heap w a) = Inst_failed) live"
    | (short) "live \<noteq> []" "\<not> list_ex (\<lambda>a. state (instance_heap w a) = Inst_failed) live"
        "int (length live) < count (service_heap w s)"
    | (up) "live \<noteq> []" "\<not> list_ex (\<lambda>a. state (instance_heap w a) = Inst_failed) live"
        "\<not> int (length live) < count (service_heap w s)"
        "list_all (\<lambda>a. state (instance_heap w a) = Inst_up) live"
    | (none) "live \<noteq> []" "\<not> list_ex (\<lambda>a. state (instance_heap w a) = Inst_failed) live"
        "\<not> int (length live) < count (service_heap w s)"
        "\<not> list_all (\<lambda>a. state (instance_heap w a) = Inst_up) live"
    by blast
  then show ?thesis
  proof cases
    case empty
    have e: "evs = [All_down]"
      by (simp add: evs_def aggregate_events_def empty)
    show ?thesis
      unfolding instance_change_def Let_def live_def [symmetric] w1_def [symmetric]
      by (auto simp: empty e service_transition_fire [OF m1] arm_restart_timer_def split: option.splits)
  next
    case failed
    show ?thesis
    proof (cases "list_all (\<lambda>a. state (instance_heap w a) = Inst_failed) live")
      case True
      have e: "evs = [Failed, All_failed]"
        by (simp add: evs_def aggregate_events_def failed True list_ex_map_eq list_all_map_eq)
      show ?thesis
        unfolding instance_change_def Let_def live_def [symmetric] w1_def [symmetric]
        by (auto simp: failed True e service_transition_eq m1 update_service_twice
            arm_restart_timer_def split: option.splits)
    next
      case False
      have e: "evs = [Failed]"
        by (simp add: evs_def aggregate_events_def failed False list_ex_map_eq list_all_map_eq)
      show ?thesis
        unfolding instance_change_def Let_def live_def [symmetric] w1_def [symmetric]
        by (auto simp: failed False e service_transition_fire [OF m1] arm_restart_timer_def split: option.splits)
    qed
  next
    case short
    have e: "evs = [Down]"
      by (simp add: evs_def aggregate_events_def short list_ex_map_eq list_all_map_eq)
    show ?thesis
      unfolding instance_change_def Let_def live_def [symmetric] w1_def [symmetric]
      by (auto simp: short e service_transition_fire [OF m2] arm_restart_timer_def split: option.splits)
  next
    case up
    have e: "evs = [All_up]"
      by (simp add: evs_def aggregate_events_def up list_ex_map_eq list_all_map_eq)
    show ?thesis
      unfolding instance_change_def Let_def live_def [symmetric] w1_def [symmetric]
      by (auto simp: up e service_transition_fire [OF m1] arm_restart_timer_def split: option.splits)
  next
    case none
    have e: "evs = []"
      by (simp add: evs_def aggregate_events_def none list_ex_map_eq list_all_map_eq)
    show ?thesis
      unfolding instance_change_def Let_def live_def [symmetric] w1_def [symmetric]
      by (auto simp: none e same m1 arm_restart_timer_def split: option.splits)
  qed
qed

lemma and_then_eq_Inr: "and_then r f = Inr y \<longleftrightarrow> (\<exists>x. r = Inr x \<and> f x = Inr y)"
  by (cases r) simp_all

lemma arm_restart_timer_fields [simp]:
  "instance_heap (arm_restart_timer s w) = instance_heap w"
  "next_instance (arm_restart_timer s w) = next_instance w"
  "pool_heap (arm_restart_timer s w) = pool_heap w"
  "node_runs (arm_restart_timer s w) = node_runs w"
  "log (arm_restart_timer s w) = log w"
  by (simp_all add: arm_restart_timer_def split: option.splits)

lemma arm_restart_timer_service [simp]:
  "instances (service_heap (arm_restart_timer s w) s') = instances (service_heap w s')"
  "count (service_heap (arm_restart_timer s w) s') = count (service_heap w s')"
  "machine (service_heap (arm_restart_timer s w) s') = machine (service_heap w s')"
  "command (service_heap (arm_restart_timer s w) s') = command (service_heap w s')"
  "render (service_heap (arm_restart_timer s w) s') = render (service_heap w s')"
  "name (service_heap (arm_restart_timer s w) s') = name (service_heap w s')"
  "node_pool (service_heap (arm_restart_timer s w) s') = node_pool (service_heap w s')"
  "pid_file_template (service_heap (arm_restart_timer s w) s') = pid_file_template (service_heap w s')"
  "monitor_interval (service_heap (arm_restart_timer s w) s') = monitor_interval (service_heap w s')"
  "restart_interval (service_heap (arm_restart_timer s w) s') = restart_interval (service_heap w s')"
  "scheduler (service_heap (arm_restart_timer s w) s') = scheduler (service_heap w s')"
  by (simp_all add: arm_restart_timer_def split: option.splits)

lemma instance_change_None:
  "machine (service_heap w s) = None \<Longrightarrow> \<exists>e. instance_change s w = Inl e"
  unfolding instance_change_def Let_def
  by (simp add: service_transition_eq)

lemma instance_change_Inr:
  assumes "instance_change s w = Inr w'"
  shows "instance_heap w' = instance_heap w"
    and "next_instance w' = next_instance w"
    and "pool_heap w' = pool_heap w"
    and "node_runs w' = node_runs w"
    and "instances (service_heap w' s) =
           filter (\<lambda>a. state (instance_heap w a) \<noteq> Inst_down) (instances (service_heap w s))"
    and "count (service_heap w' s) = count (service_heap w s)"
    and "command (service_heap w' s) = command (service_heap w s)"
    and "render (service_heap w' s) = render (service_heap w s)"
    and "name (service_heap w' s) = name (service_heap w s)"
    and "node_pool (service_heap w' s) = node_pool (service_heap w s)"
    and "pid_file_template (service_heap w' s) = pid_file_template (service_heap w s)"
    and "monitor_interval (service_heap w' s) = monitor_interval (service_heap w s)"
    and "restart_interval (service_heap w' s) = restart_interval (service_heap w s)"
    and "scheduler (service_heap w' s) = scheduler (service_heap w s)"
    and "machine (service_heap w' s) \<noteq> None"
    and "machine (service_heap w s) \<noteq> None"
    and "s' \<noteq> s \<Longrightarrow> service_heap w' s' = service_heap w s'"
proof -
  obtain st where m: "machine (service_heap w s) = Some st"
    using assms instance_change_None [of w s] by (cases "machine (service_heap w s)") auto
  note r = instance_change_result [OF m]
  have w': "w' = arm_restart_timer s
            (update_service s (\<lambda>v. v\<lparr>machine := Some (foldl fire st
               (aggregate_events (map (\<lambda>a. state (instance_heap w a))
                  (filter (\<lambda>a. state (instance_heap w a) \<noteq> Inst_down) (instances (service_heap w s))))
                  (count (service_heap w s))))\<rparr>)
               (if aggregate_events (map (\<lambda>a. state (instance_heap w a))
                  (filter (\<lambda>a. state (instance_heap w a) \<noteq> Inst_down) (instances (service_heap w s))))
                  (count (service_heap w s)) = [Down]
                then write_log Only_found_instances
                  (update_service s (\<lambda>v. v\<lparr>instances := filter (\<lambda>a. state (instance_heap w a) \<noteq> Inst_down) (instances (service_heap w s))\<rparr>) w)
                else update_service s (\<lambda>v. v\<lparr>instances := filter (\<lambda>a. state (instance_heap w a) \<noteq> Inst_down) (instances (service_heap w s))\<rparr>) w))"
    using assms r by simp
  show "instance_heap w' = instance_heap w" by (simp add: w')
  show "next_instance w' = next_instance w" by (simp add: w')
  show "pool_heap w' = pool_heap w" by (simp add: w')
  show "node_runs w' = node_runs w" by (simp add: w')
  show "instances (service_heap w' s) =
           filter (\<lambda>a. state (instance_heap w a) \<noteq> Inst_down) (instances (service_heap w s))"
    by (simp add: w')
  show "count (service_heap w' s) = count (service_heap w s)" by (simp add: w')
  show "command (service_heap w' s) = command (service_heap w s)" by (simp add: w')
  show "render (service_heap w' s) = render (service_heap w s)" by (simp add: w')
  show "name (service_heap w' s) = name (service_heap w s)" by (simp add: w')
  show "node_pool (service_heap w' s) = node_pool (service_heap w s)" by (simp add: w')
  show "pid_file_template (service_heap w' s) = pid_file_template (service_heap w s)" by (simp add: w')
  show "monitor_interval (service_heap w' s) = monitor_interval (service_heap w s)" by (simp add: w')
  show "restart_interval (service_heap w' s) = restart_interval (service_heap w s)" by (simp add: w')
  show "scheduler (service_heap w' s) = scheduler (service_heap w s)" by (simp add: w')
  show "machine (service_heap w' s) \<noteq> None" by (simp add: w')
  show "machine (service_heap w s) \<noteq> None" by (simp add: m)
  show "s' \<noteq> s \<Longrightarrow> service_heap w' s' = service_heap w s'"
    by (simp add: w' arm_restart_timer_def split: option.splits)
qed


lemma node_run_fields [simp]:
  "instance_heap (node_run a act w) = instance_heap w"
  "next_instance (node_run a act w) = next_instance w"
  "service_heap (node_run a act w) = service_heap w"
  "pool_heap (node_run a act w) = pool_heap w"
  "node_runs (node_run a act w) = node_runs w @ [(node (instance_heap w a), act)]"
  "call_later (node_run a act w) = call_later w"
  "log (node_run a act w) = log w"
  by (simp_all add: node_run_def)

lemma queue_monitor_fields:
  "instance_heap (queue_monitor a w)
     = (instance_heap w)(a := (instance_heap w a)\<lparr>monitor_action := None\<rparr>)"
  "next_instance (queue_monitor a w) = next_instance w"
  "service_heap (queue_monitor a w) = service_heap w"
  "pool_heap (queue_monitor a w) = pool_heap w"
  "node_runs (queue_monitor a w) = node_runs w"
  "log (queue_monitor a w) = log w"
  by (simp_all add: queue_monitor_def Let_def split: option.splits)

lemma instance_transition_None:
  "instance_table (state (instance_heap w a)) ev = None \<Longrightarrow> instance_transition a ev w = Inr w"
  by (simp add: instance_transition_def)

lemma instance_transition_Some:
  assumes t: "instance_table (state (instance_heap w a)) ev = Some t"
    and l: "listeners (instance_heap w a) = [s]"
    and r: "instance_transition a ev w = Inr w'"
  shows "instance_heap w' = (instance_heap w)(a := (instance_heap w a)\<lparr>state := t\<rparr>)"
    and "next_instance w' = next_instance w"
    and "pool_heap w' = pool_heap w"
    and "node_runs w' = node_runs w"
    and "instances (service_heap w' s) =
           filter (\<lambda>x. state (instance_heap w' x) \<noteq> Inst_down) (instances (service_heap w s))"
    and "count (service_heap w' s) = count (service_heap w s)"
    and "command (service_heap w' s) = command (service_heap w s)"
    and "render (service_heap w' s) = render (service_heap w s)"
    and "name (service_heap w' s) = name (service_heap w s)"
    and "node_pool (service_heap w' s) = node_pool (service_heap w s)"
    and "pid_file_template (service_heap w' s) = pid_file_template (service_heap w s)"
    and "monitor_interval (service_heap w' s) = monitor_interval (service_heap w s)"
    and "machine (service_heap w' s) \<noteq> None"
    and "s' \<noteq> s \<Longrightarrow> service_heap w' s' = service_heap w s'"
proof -
  let ?w1 = "update_instance a (\<lambda>i. i\<lparr>state := t\<rparr>) w"
  have c: "instance_change s ?w1 = Inr w'"
    using r by (auto simp: instance_transition_def t l and_then_eq_Inr)
  note f = instance_change_Inr [OF c]
  show h: "instance_heap w' = (instance_heap w)(a := (instance_heap w a)\<lparr>state := t\<rparr>)"
    using f(1) by simp
  show "next_instance w' = next_instance w" using f(2) by simp
  show "pool_heap w' = pool_heap w" using f(3) by simp
  show "node_runs w' = node_runs w" using f(4) by simp
  show "instances (service_heap w' s) =
           filter (\<lambda>x. state (instance_heap w' x) \<noteq> Inst_down) (instances (service_heap w s))"
    using f(5) by (simp add: f(1))
  show "count (service_heap w' s) = count (service_heap w s)" using f(6) by simp
  show "command (service_heap w' s) = command (service_heap w s)" using f(7) by simp
  show "render (service_heap w' s) = render (service_heap w s)" using f(8) by simp
  show "name (service_heap w' s) = name (service_heap w s)" using f(9) by simp
  show "node_pool (service_heap w' s) = node_pool (service_heap w s)" using f(10) by simp
  show "pid_file_template (service_heap w' s) = pid_file_template (service_heap w s)"
    using f(11) by simp
  show "monitor_interval (service_heap w' s) = monitor_interval (service_heap w s)"
    using f(12) by simp
  show "machine (service_heap w' s) \<noteq> None" using f(15) by simp
  show "s' \<noteq> s \<Longrightarrow> service_heap w' s' = service_heap w s'"
    using f(17) [of s'] by simp
qed

lemma start_Inr:
  assumes r: "start a w = Inr w'"
    and l: "listeners (instance_heap w a) = [s]"
    and o: "service (instance_heap w a) = s"
  shows "state (instance_heap w a) = Inst_down
      \<and> instances (service_heap w' s) =
           filter (\<lambda>x. x = a \<or> state (instance_heap w x) \<noteq> Inst_down) (instances (service_heap w s))
      \<and> count (service_heap w' s) = count (service_heap w s)
      \<and> node_pool (service_heap w' s) = node_pool (service_heap w s)
      \<and> (\<forall>x. x \<noteq> a \<longrightarrow> instance_heap w' x = instance_heap w x)
      \<and> instance_number (instance_heap w' a) = instance_number (instance_heap w a)
      \<and> (state (instance_heap w' a) = Inst_starting \<or> state (instance_heap w' a) = Inst_failed)
      \<and> next_instance w' = next_instance w
      \<and> pool_heap w' = pool_heap w
      \<and> machine (service_heap w' s) \<noteq> None
      \<and> (\<forall>s'. s' \<noteq> s \<longrightarrow> service_heap w' s' = service_heap w s')"
proof -
  have d: "state (instance_heap w a) = Inst_down"
    using r by (auto simp: start_def split: if_splits)
  have t1: "instance_table (state (instance_heap w a)) Start = Some Inst_starting"
    by (simp add: d)
  obtain w1 where w1: "instance_transition a Start w = Inr w1"
    and rest: "and_then (instance_command a w1)
          (\<lambda>(c, w2). case c of
                  None \<Rightarrow> start_complete_failstart a w2
                | Some cmd \<Rightarrow>
                    (let act = new_action a Start_action cmd w2
                     in Inr (node_run a act
                               (update_instance a (\<lambda>i. i\<lparr>start_action := Some act\<rparr>) w2)))) = Inr w'"
    using r d by (auto simp: start_def and_then_eq_Inr)
  note f1 = instance_transition_Some [OF t1 l w1]
  obtain c w2 where ic: "instance_command a w1 = Inr (c, w2)"
    and k: "(case c of
                  None \<Rightarrow> start_complete_failstart a w2
                | Some cmd \<Rightarrow>
                    (let act = new_action a Start_action cmd w2
                     in Inr (node_run a act
                               (update_instance a (\<lambda>i. i\<lparr>start_action := Some act\<rparr>) w2)))) = Inr w'"
    using rest by (auto simp: and_then_eq_Inr)
  have w2: "w2 = w1 \<or> w2 = write_log Command_render_failed w1"
    using ic by (auto simp: instance_command_def split: option.splits)
  have h2: "instance_heap w2 = instance_heap w1" "service_heap w2 = service_heap w1"
    "next_instance w2 = next_instance w1" "pool_heap w2 = pool_heap w1"
    using w2 by auto
  have filt: "filter (\<lambda>x. state (instance_heap w1 x) \<noteq> Inst_down) (instances (service_heap w s))
      = filter (\<lambda>x. x = a \<or> state (instance_heap w x) \<noteq> Inst_down) (instances (service_heap w s))"
  proof -
    have eq: "\<And>x. (state (instance_heap w1 x) \<noteq> Inst_down)
               = (x = a \<or> state (instance_heap w x) \<noteq> Inst_down)"
      by (auto simp: f1(1))
    show ?thesis by (simp only: eq)
  qed
  show ?thesis
  proof (cases c)
    case None
    let ?w3 = "write_log Failed_to_start w2"
    obtain w4 where w4: "instance_transition a Down ?w3 = Inr w4"
      and e: "w' = update_instance a (\<lambda>i. i\<lparr>start_action := None\<rparr>) w4"
      using k None by (auto simp: start_complete_failstart_def and_then_eq_Inr)
    have t2: "instance_table (state (instance_heap ?w3 a)) Down = Some Inst_failed"
      by (simp add: h2 f1(1))
    have l2: "listeners (instance_heap ?w3 a) = [s]"
      by (simp add: h2 f1(1) l)
    note f2 = instance_transition_Some [OF t2 l2 w4]
    have filt2: "filter (\<lambda>x. state (instance_heap w4 x) \<noteq> Inst_down)
           (filter (\<lambda>x. x = a \<or> state (instance_heap w x) \<noteq> Inst_down) (instances (service_heap w s)))
         = filter (\<lambda>x. x = a \<or> state (instance_heap w x) \<noteq> Inst_down) (instances (service_heap w s))"
      by (rule filter_True) (auto simp: f2(1) h2 f1(1))
    show ?thesis
      using f2(13) f2(14) f1(14)
      by (simp add: d e f2(1) f2(2) f2(3) f2(5) f2(6) f2(10) h2 f1(1) f1(2) f1(3) f1(5) f1(6) f1(10)
          disj_imp)
  next
    case (Some cmd)
    have e: "w' = node_run a (new_action a Start_action cmd w2)
                   (update_instance a (\<lambda>i. i\<lparr>start_action := Some (new_action a Start_action cmd w2)\<rparr>) w2)"
      using k Some by (simp add: Let_def)
    show ?thesis
      using f1(13) f1(14)
      by (simp add: d e h2 f1(1) f1(2) f1(3) f1(5) f1(6) f1(10) disj_imp)
  qed
qed

lemma and_then_cong [fundef_cong]:
  "r = r' \<Longrightarrow> (\<And>x. r' = Inr x \<Longrightarrow> f x = f' x) \<Longrightarrow> and_then r f = and_then r' f'"
  by (cases r') simp_all

lemma create_instance_fields:
  assumes "create_instance s nd n w = (a, w2)"
  shows "a = next_instance w
    \<and> instance_heap w2 =
        (instance_heap w)
          (a := \<lparr>instance_number = n, node = nd, service = s, state = Inst_down,
                 listeners = [s], monitor_action = None, start_action = None,
                 stop_action = None\<rparr>)
    \<and> next_instance w2 = Suc (next_instance w)
    \<and> service_heap w2 =
        (service_heap w)
          (s := (service_heap w s)
             \<lparr>instances :=
                sort_key (\<lambda>x. if x = next_instance w then n else instance_number (instance_heap w x))
                  (instances (service_heap w s) @ [a])\<rparr>)
    \<and> pool_heap w2 = pool_heap w \<and> node_runs w2 = node_runs w
    \<and> call_later w2 = call_later w \<and> log w2 = log w"
  using assms
  by (auto simp: create_instance_def sort_instances_def Let_def if_distrib [of instance_number]
      cong: if_cong)

lemma next_round_robin_fields [simp]:
  "instance_heap (snd (next_round_robin p w)) = instance_heap w"
  "next_instance (snd (next_round_robin p w)) = next_instance w"
  "service_heap (snd (next_round_robin p w)) = service_heap w"
  "node_runs (snd (next_round_robin p w)) = node_runs w"
  "call_later (snd (next_round_robin p w)) = call_later w"
  "log (snd (next_round_robin p w)) = log w"
  by (simp_all add: next_round_robin_def Let_def)

lemma find_unused_cong:
  "instance_heap w1 = instance_heap w \<Longrightarrow> service_heap w1 = service_heap w \<Longrightarrow>
     find_unused_instance_number s w1 = find_unused_instance_number s w"
  by (simp add: find_unused_instance_number_def)

lemma find_unused_None:
  "find_unused_instance_number s w = None \<longleftrightarrow>
     {0..count (service_heap w s) - 1}
       \<subseteq> (\<lambda>a. instance_number (instance_heap w a)) ` set (instances (service_heap w s))"
  by (auto simp: find_unused_instance_number_def Let_def)

lemma find_unused_Some:
  assumes "find_unused_instance_number s w = Some n"
  shows "0 \<le> n" and "n < count (service_heap w s)"
    and "n \<notin> (\<lambda>a. instance_number (instance_heap w a)) ` set (instances (service_heap w s))"
    and "\<And>k. 0 \<le> k \<Longrightarrow> k < n \<Longrightarrow>
           k \<in> (\<lambda>a. instance_number (instance_heap w a)) ` set (instances (service_heap w s))"
proof -
  let ?A = "set [0..count (service_heap w s) - 1]
            - set (map (\<lambda>a. instance_number (instance_heap w a)) (instances (service_heap w s)))"
  have ne: "?A \<noteq> {}" and n: "n = Min ?A"
    using assms by (auto simp: find_unused_instance_number_def Let_def split: if_splits)
  have fin: "finite ?A" by simp
  have mem: "n \<in> ?A" unfolding n using fin ne by (rule Min_in)
  show "0 \<le> n" "n < count (service_heap w s)"
    and "n \<notin> (\<lambda>a. instance_number (instance_heap w a)) ` set (instances (service_heap w s))"
    using mem by auto
  fix k :: int
  assume k: "0 \<le> k" "k < n"
  show "k \<in> (\<lambda>a. instance_number (instance_heap w a)) ` set (instances (service_heap w s))"
  proof (rule ccontr)
    assume "k \<notin> (\<lambda>a. instance_number (instance_heap w a)) ` set (instances (service_heap w s))"
    then have "k \<in> ?A" using k mem by auto
    then have "n \<le> k" unfolding n using fin by (simp add: Min_le)
    then show False using k by simp
  qed
qed

lemma find_unused_pigeonhole:
  assumes "int (length (instances (service_heap w s))) < count (service_heap w s)"
  shows "find_unused_instance_number s w \<noteq> None"
proof
  assume "find_unused_instance_number s w = None"
  then have sub: "{0..count (service_heap w s) - 1}
       \<subseteq> (\<lambda>a. instance_number (instance_heap w a)) ` set (instances (service_heap w s))"
    by (simp add: find_unused_None)
  have "card {0..count (service_heap w s) - 1}
          \<le> card ((\<lambda>a. instance_number (instance_heap w a)) ` set (instances (service_heap w s)))"
    by (rule card_mono [OF _ sub]) simp
  also have "\<dots> \<le> card (set (instances (service_heap w s)))"
    by (rule card_image_le) simp
  also have "\<dots> \<le> length (instances (service_heap w s))"
    by (rule card_length)
  finally show False using assms by simp
qed


lemma length_filter_mono:
  "(\<And>x. P x \<Longrightarrow> Q x) \<Longrightarrow> length (filter P xs) \<le> length (filter Q xs)"
  by (induction xs) auto

lemma build_instance_None:
  assumes "build_instance s w = Inr (r, w')" and "find_unused_instance_number s w = None"
  shows "r = None
    \<and> w' = write_log Cannot_build_instance (snd (next_round_robin (node_pool (service_heap w s)) w))"
proof -
  obtain nd w1 where n: "next_round_robin (node_pool (service_heap w s)) w = (nd, w1)"
    by (cases "next_round_robin (node_pool (service_heap w s)) w")
  have w1: "w1 = snd (next_round_robin (node_pool (service_heap w s)) w)"
    by (simp add: n)
  have "find_unused_instance_number s w1 = find_unused_instance_number s w"
    unfolding w1 by (rule find_unused_cong) simp_all
  then have "find_unused_instance_number s w1 = None"
    using assms(2) by simp
  then show ?thesis
    using assms(1) by (simp add: build_instance_def n w1 [symmetric])
qed

lemma build_instance_Some:
  assumes b: "build_instance s w = Inr (r, w')"
    and f: "find_unused_instance_number s w = Some n"
  shows "r = Some (next_instance w)
    \<and> instances (service_heap w' s) =
        filter (\<lambda>x. x = next_instance w \<or> state (instance_heap w x) \<noteq> Inst_down)
          (sort_key (\<lambda>x. if x = next_instance w then n else instance_number (instance_heap w x))
             (instances (service_heap w s) @ [next_instance w]))
    \<and> count (service_heap w' s) = count (service_heap w s)
    \<and> node_pool (service_heap w' s) = node_pool (service_heap w s)
    \<and> (\<forall>x. x \<noteq> next_instance w \<longrightarrow> instance_heap w' x = instance_heap w x)
    \<and> instance_number (instance_heap w' (next_instance w)) = n
    \<and> (state (instance_heap w' (next_instance w)) = Inst_starting
        \<or> state (instance_heap w' (next_instance w)) = Inst_failed)
    \<and> next_instance w' = Suc (next_instance w)
    \<and> machine (service_heap w' s) \<noteq> None
    \<and> (\<forall>s'. s' \<noteq> s \<longrightarrow> service_heap w' s' = service_heap w s')"
proof -
  obtain nd w1 where n: "next_round_robin (node_pool (service_heap w s)) w = (nd, w1)"
    by (cases "next_round_robin (node_pool (service_heap w s)) w")
  have w1: "w1 = snd (next_round_robin (node_pool (service_heap w s)) w)"
    by (simp add: n)
  have "find_unused_instance_number s w1 = find_unused_instance_number s w"
    unfolding w1 by (rule find_unused_cong) simp_all
  then have f1: "find_unused_instance_number s w1 = Some n"
    using f by simp
  obtain a w2 where c: "create_instance s nd n w1 = (a, w2)"
    by (cases "create_instance s nd n w1")
  have ih1: "instance_heap w1 = instance_heap w" and sh1: "service_heap w1 = service_heap w"
    and nx1: "next_instance w1 = next_instance w"
    by (simp_all add: w1)
  note cf = create_instance_fields [OF c, unfolded ih1 sh1 nx1]
  have e: "and_then (start a w2) (\<lambda>w3. Inr (Some a, w3)) = Inr (r, w')"
    using b by (simp add: build_instance_def n f1 c)
  have st_r: "start a w2 = Inr w' \<and> r = Some a"
    using e by (cases "start a w2") auto
  have st: "start a w2 = Inr w'" and r: "r = Some a"
    using st_r by simp_all
  have a: "a = next_instance w"
    using cf by (simp add: w1)
  have l: "listeners (instance_heap w2 a) = [s]" and o: "service (instance_heap w2 a) = s"
    using cf by simp_all
  note sf = start_Inr [OF st l o]
  have h2: "\<And>x. x \<noteq> a \<Longrightarrow> instance_heap w2 x = instance_heap w x"
    using cf by (simp add: w1)
  have p: "\<And>x. (x = a \<or> state (instance_heap w2 x) \<noteq> Inst_down)
               = (x = a \<or> state (instance_heap w x) \<noteq> Inst_down)"
    using h2 by auto
  have roster: "instances (service_heap w2 s) =
      sort_key (\<lambda>x. if x = next_instance w then n else instance_number (instance_heap w x))
        (instances (service_heap w s) @ [next_instance w])"
    using cf by (simp add: w1)
  have others: "\<And>s'. s' \<noteq> s \<Longrightarrow> service_heap w2 s' = service_heap w s'"
    using cf by (simp add: w1)
  have cnt: "count (service_heap w2 s) = count (service_heap w s)"
    "node_pool (service_heap w2 s) = node_pool (service_heap w s)"
    using cf by (simp_all add: w1)
  have num: "instance_number (instance_heap w2 a) = n"
    using cf by simp
  have nx: "next_instance w2 = Suc (next_instance w)"
    using cf by (simp add: w1)
  have c1: "r = Some (next_instance w)"
    using r a by simp
  have c2: "instances (service_heap w' s) =
        filter (\<lambda>x. x = next_instance w \<or> state (instance_heap w x) \<noteq> Inst_down)
          (sort_key (\<lambda>x. if x = next_instance w then n else instance_number (instance_heap w x))
             (instances (service_heap w s) @ [next_instance w]))"
  proof -
    have "instances (service_heap w' s) =
        filter (\<lambda>x. x = a \<or> state (instance_heap w2 x) \<noteq> Inst_down) (instances (service_heap w2 s))"
      using sf by blast
    then show ?thesis
      by (simp only: a p [unfolded a] roster)
  qed
  have c3: "count (service_heap w' s) = count (service_heap w s)"
    using sf cnt(1) by simp
  have c4: "node_pool (service_heap w' s) = node_pool (service_heap w s)"
    using sf cnt(2) by simp
  have c5: "\<forall>x. x \<noteq> next_instance w \<longrightarrow> instance_heap w' x = instance_heap w x"
  proof (intro allI impI)
    fix x assume "x \<noteq> next_instance w"
    then have xa: "x \<noteq> a" by (simp add: a)
    have "instance_heap w' x = instance_heap w2 x"
      using sf xa by blast
    then show "instance_heap w' x = instance_heap w x"
      using h2 [OF xa] by simp
  qed
  have c6: "instance_number (instance_heap w' (next_instance w)) = n"
  proof -
    have "instance_number (instance_heap w' a) = instance_number (instance_heap w2 a)"
      using sf by blast
    then show ?thesis by (simp add: num a [symmetric])
  qed
  have c7: "state (instance_heap w' (next_instance w)) = Inst_starting
        \<or> state (instance_heap w' (next_instance w)) = Inst_failed"
  proof -
    have "state (instance_heap w' a) = Inst_starting \<or> state (instance_heap w' a) = Inst_failed"
      using sf by blast
    then show ?thesis by (simp only: a)
  qed
  have c8: "next_instance w' = Suc (next_instance w)"
  proof -
    have "next_instance w' = next_instance w2"
      using sf by blast
    then show ?thesis by (simp only: nx)
  qed
  have c9: "machine (service_heap w' s) \<noteq> None"
    using sf by blast
  have c10: "\<forall>s'. s' \<noteq> s \<longrightarrow> service_heap w' s' = service_heap w s'"
  proof (intro allI impI)
    fix s' assume ne: "s' \<noteq> s"
    have "service_heap w' s' = service_heap w2 s'"
      using sf ne by blast
    then show "service_heap w' s' = service_heap w s'"
      using others [OF ne] by simp
  qed
  show ?thesis
    using c1 c2 c3 c4 c5 c6 c7 c8 c9 c10 by blast
qed

function fill_instances :: "nat \<Rightarrow> world \<Rightarrow> world result" where
  "fill_instances s w =
     (if int (length (instances (service_heap w s))) < count (service_heap w s) then
        and_then (build_instance s w) (\<lambda>(_, w1). fill_instances s w1)
      else Inr w)"
  by pat_completeness auto
termination
proof (relation "measure (\<lambda>(s, w).
    nat (count (service_heap w s) - int (length (instances (service_heap w s))))
    + 2 * length (filter (\<lambda>x. state (instance_heap w x) = Inst_down)
                    (instances (service_heap w s))))")
  show "wf (measure (\<lambda>(s, w).
    nat (count (service_heap w s) - int (length (instances (service_heap w s))))
    + 2 * length (filter (\<lambda>x. state (instance_heap w x) = Inst_down)
                    (instances (service_heap w s)))))"
    by simp
next
  fix s w x r w1
  assume short: "int (length (instances (service_heap w s))) < count (service_heap w s)"
    and b: "build_instance s w = Inr x" and x: "(r, w1) = x"
  obtain n where f: "find_unused_instance_number s w = Some n"
    using find_unused_pigeonhole [OF short] by auto
  have b': "build_instance s w = Inr (r, w1)"
    using b x by simp
  note bf = build_instance_Some [OF b' f]
  let ?a = "next_instance w"
  let ?xs = "instances (service_heap w s)"
  let ?P = "\<lambda>x. x = ?a \<or> state (instance_heap w x) \<noteq> Inst_down"
  have roster: "instances (service_heap w1 s) =
      filter ?P (sort_key (\<lambda>x. if x = ?a then n else instance_number (instance_heap w x))
                   (?xs @ [?a]))"
    using bf by simp
  have len: "length (instances (service_heap w1 s)) = Suc (length (filter ?P ?xs))"
    by (simp add: roster filter_sort)
  have st_new: "state (instance_heap w1 ?a) \<noteq> Inst_down"
    using bf by auto
  have st_old: "\<And>x. x \<noteq> ?a \<Longrightarrow> state (instance_heap w1 x) = state (instance_heap w x)"
    using bf by simp
  have live: "\<And>x. ?P x \<Longrightarrow> state (instance_heap w1 x) \<noteq> Inst_down"
    using st_new st_old by metis
  have nodown: "filter (\<lambda>x. state (instance_heap w1 x) = Inst_down) (instances (service_heap w1 s)) = []"
    unfolding roster filter_empty_conv using live by auto
  have split: "length ?xs = length (filter ?P ?xs) + length (filter (\<lambda>x. \<not> ?P x) ?xs)"
    by (rule sum_length_filter_compl [symmetric])
  have le: "length (filter (\<lambda>x. \<not> ?P x) ?xs)
              \<le> length (filter (\<lambda>x. state (instance_heap w x) = Inst_down) ?xs)"
    by (rule length_filter_mono) simp
  have cnt: "count (service_heap w1 s) = count (service_heap w s)"
    using bf by simp
  have "nat (count (service_heap w s) - int (Suc (length (filter ?P ?xs))))
          < nat (count (service_heap w s) - int (length ?xs))
            + 2 * length (filter (\<lambda>x. state (instance_heap w x) = Inst_down) ?xs)"
    using short split le by linarith
  then show "((s, w1), (s, w)) \<in> measure (\<lambda>(s, w).
    nat (count (service_heap w s) - int (length (instances (service_heap w s))))
    + 2 * length (filter (\<lambda>x. state (instance_heap w x) = Inst_down)
                    (instances (service_heap w s))))"
    unfolding in_measure prod.case nodown cnt len by simp
qed

subsection \<open>Service.absorb_previous\<close>

text \<open>
  The first loop, over the previous service's instances: each is rewired to this
  service and, on a structural change, stopped. \<open>removed_instances\<close> is the local
  variable of that name, \<open>None\<close> while it is unbound: its first assignment comes after
  this loop, so incrementing it here raises \<open>UnboundLocalError\<close>.
\<close>

fun inherit_instances ::
  "nat \<Rightarrow> bool \<Rightarrow> int option \<Rightarrow> nat list \<Rightarrow> world \<Rightarrow> world result" where
  "inherit_instances s rebuild_all_instances removed_instances [] w = Inr w"
| "inherit_instances s rebuild_all_instances removed_instances (a # as) w =
     (let w1 = update_instance a (\<lambda>i. i\<lparr>listeners := [s]\<rparr>) w
      in if rebuild_all_instances then
           and_then (stop a w1)
             (\<lambda>w2. case removed_instances of
                      None \<Rightarrow> Inl (UnboundLocalError, w2)
                    | Some k \<Rightarrow>
                        inherit_instances s rebuild_all_instances (Some (k + 1)) as w2)
         else inherit_instances s rebuild_all_instances removed_instances as w1)"

definition current_instances :: "nat \<Rightarrow> world \<Rightarrow> nat list" where
  "current_instances s w =
     filter (\<lambda>a. state (instance_heap w a) \<noteq> Inst_stopping
                \<and> state (instance_heap w a) \<noteq> Inst_down
                \<and> state (instance_heap w a) \<noteq> Inst_failed)
       (instances (service_heap w s))"

text \<open>
  The loop of the node pool pass. \<open>instance_count_per_node\<close> is the
  \<open>defaultdict(int)\<close>; the result is \<open>removed_instances\<close>.
\<close>

fun rebalance ::
  "nat \<Rightarrow> int \<Rightarrow> nat list \<Rightarrow> (string \<Rightarrow> int) \<Rightarrow> int \<Rightarrow> world \<Rightarrow> (int \<times> world) result" where
  "rebalance s optimal_instances_per_node [] instance_count_per_node removed_instances w =
     Inr (removed_instances, w)"
| "rebalance s optimal_instances_per_node (a # as) instance_count_per_node removed_instances w =
     (case pool_lookup (pool_heap w (node_pool (service_heap w s))) (node (instance_heap w a)) of
        None \<Rightarrow>
          and_then (stop a (write_log Not_on_current_node w))
            (rebalance s optimal_instances_per_node as instance_count_per_node
               (removed_instances + 1))
      | Some nd \<Rightarrow>
          (let w1 = update_instance a (\<lambda>i. i\<lparr>node := nd\<rparr>) w;
               counts = instance_count_per_node(nd := instance_count_per_node nd + 1)
           in if counts nd > optimal_instances_per_node then
                and_then (stop a (write_log Node_has_too_many w1))
                  (rebalance s optimal_instances_per_node as counts (removed_instances + 1))
              else rebalance s optimal_instances_per_node as counts removed_instances w1))"

definition absorb_previous :: "nat \<Rightarrow> nat \<Rightarrow> world \<Rightarrow> world result" where
  "absorb_previous s prev w =
     (let rebuild_all_instances =
            (command (service_heap w s) \<noteq> command (service_heap w prev)
             \<or> scheduler (service_heap w s) \<noteq> scheduler (service_heap w prev));
          w1 = update_service s (\<lambda>v. v\<lparr>machine := machine (service_heap w prev)\<rparr>) w;
          w2 = update_service prev (\<lambda>v. v\<lparr>machine := None\<rparr>) w1;
          w3 = update_service s
                 (\<lambda>v. v\<lparr>instances := instances v @ instances (service_heap w2 prev)\<rparr>) w2
      in and_then
           (inherit_instances s rebuild_all_instances None (instances (service_heap w3 prev)) w3)
           (\<lambda>w4.
              let w5 = update_service prev (\<lambda>v. v\<lparr>instances := []\<rparr>) w4;
                  w6 = sort_instances s w5
              in and_then
                   (if node_pool (service_heap w6 s) \<noteq> node_pool (service_heap w6 prev) then
                      (if length (nodes (pool_heap w6 (node_pool (service_heap w6 s)))) = 0 then
                         Inl (ZeroDivisionError, w6)
                       else
                         rebalance s
                           (count (service_heap w6 s)
                              div int (length (nodes (pool_heap w6 (node_pool (service_heap w6 s))))))
                           (current_instances s w6) (\<lambda>_. 0) 0 w6)
                    else Inr (0, w6))
                   (\<lambda>(removed_instances, w7).
                      let count_to_remove =
                            (int (length (instances (service_heap w7 s))) - removed_instances)
                            - count (service_heap w7 s)
                      in and_then
                           (if count_to_remove > 0 then
                              stop_each
                                (drop (length (current_instances s w7) - nat count_to_remove)
                                   (current_instances s w7)) w7
                            else Inr w7)
                           (fill_instances s))))"


subsection \<open>The worlds that the code can reach\<close>

text \<open>
  \<open>reachable\<close> holds of the worlds that arise from a world in which every roster is
  empty by the operations of the two classes, each taken with the world it leaves
  whether it returns or raises: the methods and callbacks of an instance, and
  \<open>start\<close>, \<open>stop\<close>, \<open>_restart_after_failure\<close>, \<open>build_instance\<close> and the listener
  \<open>_instance_change\<close> of a service;
  \<open>restore\<close> of a snapshot taken in a reachable world, and \<open>absorb_previous\<close>, both
  into a service whose roster is empty, as a new \<open>Service\<close> object has it. Two steps
  stand for the code outside these sources: a configuration sets attributes of a
  service other than its roster, and the executor (or anything else) changes an
  instance object but not its number.

  \<open>kept\<close> relates two worlds when the second has allocated no instance, changed no
  instance number, and each roster of the second is a selection of the same roster of
  the first, in the same order. \<open>roster_ok\<close> is the invariant: a roster refers to
  allocated instances only, and its instance numbers are pairwise distinct.
\<close>

definition kept :: "world \<Rightarrow> world \<Rightarrow> bool" where
  "kept w w' \<longleftrightarrow>
     next_instance w' = next_instance w
     \<and> (\<forall>a. instance_number (instance_heap w' a) = instance_number (instance_heap w a))
     \<and> (\<forall>s. \<exists>Q. instances (service_heap w' s) = filter Q (instances (service_heap w s)))"

definition roster_ok :: "world \<Rightarrow> bool" where
  "roster_ok w \<longleftrightarrow>
     (\<forall>s. (\<forall>a\<in>set (instances (service_heap w s)). a < next_instance w)
          \<and> distinct (instance_numbers s w))"

inductive reachable :: "world \<Rightarrow> bool" where
  initial: "(\<And>s. instances (service_heap w s) = []) \<Longrightarrow> reachable w"
| configure:
    "reachable w \<Longrightarrow> instances (f (service_heap w s)) = instances (service_heap w s) \<Longrightarrow>
       reachable (update_service s f w)"
| executor:
    "reachable w \<Longrightarrow>
       instance_number (f (instance_heap w a)) = instance_number (instance_heap w a) \<Longrightarrow>
       reachable (update_instance a f w)"
| service_start: "reachable w \<Longrightarrow> reachable (outcome (service_start s w))"
| service_stop: "reachable w \<Longrightarrow> reachable (outcome (service_stop s w))"
| restart_after_failure: "reachable w \<Longrightarrow> reachable (outcome (restart_after_failure s w))"
| build_instance: "reachable w \<Longrightarrow> reachable (outcome_snd (build_instance s w))"
| instance_start: "reachable w \<Longrightarrow> reachable (outcome (start a w))"
| instance_stop: "reachable w \<Longrightarrow> reachable (outcome (stop a w))"
| run_monitor: "reachable w \<Longrightarrow> reachable (outcome (run_monitor a w))"
| monitor_complete_callback:
    "reachable w \<Longrightarrow> reachable (outcome (monitor_complete_callback a w))"
| monitor_complete_failstart:
    "reachable w \<Longrightarrow> reachable (outcome (monitor_complete_failstart a w))"
| start_complete_callback:
    "reachable w \<Longrightarrow> reachable (outcome (start_complete_callback a w))"
| start_complete_failstart:
    "reachable w \<Longrightarrow> reachable (outcome (start_complete_failstart a w))"
| stop_complete_callback:
    "reachable w \<Longrightarrow> reachable (outcome (stop_complete_callback a w))"
| stop_complete_failstart:
    "reachable w \<Longrightarrow> reachable (outcome (stop_complete_failstart a w))"
| kill_instance: "reachable w \<Longrightarrow> reachable (outcome (kill_instance a w))"
| instance_change: "reachable w \<Longrightarrow> reachable (outcome (instance_change s w))"
| restore:
    "reachable w \<Longrightarrow> instances (service_heap w s) = [] \<Longrightarrow>
       reachable w0 \<Longrightarrow> data s0 w0 = Inr d \<Longrightarrow> reachable (outcome (restore s d w))"
| absorb_previous:
    "reachable w \<Longrightarrow> instances (service_heap w s) = [] \<Longrightarrow>
       reachable (outcome (absorb_previous s prev w))"


lemmas service_model_defs =
  stop_def start_def instance_transition_def instance_change_def service_transition_def
  kill_instance_def pid_file_def instance_command_def service_of_def new_action_def
  write_log_def update_instance_def update_service_def node_run_def queue_monitor_def
  run_monitor_def monitor_complete_failstart_def start_complete_failstart_def
  sort_instances_def create_instance_def find_unused_instance_number_def
  build_instance_def next_round_robin_def pool_lookup_def current_instances_def
  absorb_previous_def Let_def and_then_def raised_def world_at_raise_def

lemmas deployment_defs =
  deployment_def web_service_def running_instance_def

section \<open>Properties of the service model\<close>

text \<open>
  Claim C1. When the command differs and the previous service has instances,
  \<open>absorb_previous\<close> should stop every inherited instance and complete. On the example
  deployment (command changed, two instances up) it stops instance 0 only, then raises
  \<open>UnboundLocalError\<close> at the increment of \<open>removed_instances\<close>: instance 1 is still
  up and a single kill has been dispatched.
\<close>

theorem absorb_previous_changed_command_raises:
  "raised (absorb_previous 0 1 redeploy_changed_command) = Some UnboundLocalError
   \<and> map (\<lambda>a. state (instance_heap
                (world_at_raise redeploy_changed_command
                   (absorb_previous 0 1 redeploy_changed_command)) a)) [0, 1]
       = [Inst_stopping, Inst_up]
   \<and> map (\<lambda>r. (action_instance (snd r), action_kind (snd r)))
       (node_runs (world_at_raise redeploy_changed_command
                     (absorb_previous 0 1 redeploy_changed_command)))
       = [(0, Stop_action)]"
  by (simp add: service_model_defs deployment_defs redeploy_changed_command_def)


theorem absorb_previous_changed_command_witness:
  "raised (absorb_previous 0 1 redeploy_changed_command) \<noteq> None"
  using absorb_previous_changed_command_raises by simp

text \<open>
  The same for every world: with a structural change and an instance to inherit,
  \<open>absorb_previous\<close> never returns.
\<close>

lemma inherit_instances_rebuild_raises:
  "raised (inherit_instances s True None (a # as) w) \<noteq> None"
  by (cases "stop a (update_instance a (\<lambda>i. i\<lparr>listeners := [s]\<rparr>) w)")
     (auto simp: raised_def Let_def)

lemma absorb_previous_rebuild_raises:
  assumes "command (service_heap w s) \<noteq> command (service_heap w prev)
           \<or> scheduler (service_heap w s) \<noteq> scheduler (service_heap w prev)"
    and "instances (service_heap w prev) \<noteq> []"
  shows "raised (absorb_previous s prev w) \<noteq> None"
proof -
  let ?w2 = "update_service prev (\<lambda>v. v\<lparr>machine := None\<rparr>)
               (update_service s (\<lambda>v. v\<lparr>machine := machine (service_heap w prev)\<rparr>) w)"
  let ?w3 = "update_service s
               (\<lambda>v. v\<lparr>instances := instances v @ instances (service_heap ?w2 prev)\<rparr>) ?w2"
  have "instances (service_heap ?w3 prev) \<noteq> []"
    using assms(2) by (cases "prev = s") simp_all
  then obtain a as where ne: "instances (service_heap ?w3 prev) = a # as"
    by (cases "instances (service_heap ?w3 prev)") auto
  obtain e where "inherit_instances s True None (a # as) ?w3 = Inl e"
    using inherit_instances_rebuild_raises [of s a as ?w3]
    by (cases "inherit_instances s True None (a # as) ?w3") (auto simp: raised_def)
  then have "absorb_previous s prev w = Inl e"
    using assms(1) unfolding absorb_previous_def Let_def ne by simp
  then show ?thesis
    by (cases e) (simp add: raised_def)
qed

lemma notify_Inr:
  "notify ss w = Inr w' \<Longrightarrow>
     instance_heap w' = instance_heap w \<and> node_runs w' = node_runs w"
proof (induction ss arbitrary: w)
  case Nil
  then show ?case by simp
next
  case (Cons s ss)
  then obtain w1 where c: "instance_change s w = Inr w1" and n: "notify ss w1 = Inr w'"
    by (auto simp: and_then_eq_Inr)
  show ?case
    using Cons.IH [OF n] instance_change_Inr(1) [OF c] instance_change_Inr(4) [OF c] by simp
qed

text \<open>
  Claim C3, as the code has it. The table sends a failed instance to \<open>down\<close> on
  \<open>stop\<close>, not to \<open>stopping\<close>: when \<open>stop()\<close> returns, the instance is down and no kill
  has been dispatched.
\<close>

theorem stop_failed_goes_down:
  assumes "state (instance_heap w a) = Inst_failed"
  shows "instance_table (state (instance_heap w a)) Stop = Some Inst_down
    \<and> (\<forall>w'. stop a w = Inr w' \<longrightarrow>
          state (instance_heap w' a) = Inst_down \<and> node_runs w' = node_runs w
          \<and> stop_action (instance_heap w' a) = stop_action (instance_heap w a))"
proof (intro conjI allI impI)
  show t: "instance_table (state (instance_heap w a)) Stop = Some Inst_down"
    using assms by simp
  fix w'
  assume r: "stop a w = Inr w'"
  let ?w0 = "update_instance a (\<lambda>i. i\<lparr>state := Inst_down\<rparr>) w"
  obtain w1 where n: "notify (listeners (instance_heap w a)) ?w0 = Inr w1"
    and k: "(if state (instance_heap w1 a) = Inst_stopping then kill_instance a w1 else Inr w1)
              = Inr w'"
    using r by (auto simp: stop_def instance_transition_def t and_then_eq_Inr)
  have h: "instance_heap w1 = instance_heap ?w0" and nr: "node_runs w1 = node_runs ?w0"
    using notify_Inr [OF n] by simp_all
  have "w' = w1"
    using k by (simp add: h)
  then show "state (instance_heap w' a) = Inst_down" "node_runs w' = node_runs w"
    "stop_action (instance_heap w' a) = stop_action (instance_heap w a)"
    by (simp_all add: h nr)
qed

theorem stop_failed_goes_down_witness:
  "map_option (\<lambda>w'. (state (instance_heap w' 0), node_runs w')) (returned (stop 0 failed_world))
     = Some (Inst_down, [])"
proof -
  have f: "state (instance_heap failed_world 0) = Inst_failed"
    by (simp add: failed_world_def)
  have "returned (stop 0 failed_world) \<noteq> None"
    by (simp add: returned_def service_model_defs deployment_defs failed_world_def running_world_def)
  then obtain w' where r: "stop 0 failed_world = Inr w'"
    by (cases "stop 0 failed_world") (auto simp: returned_def)
  have "state (instance_heap w' 0) = Inst_down \<and> node_runs w' = node_runs failed_world"
    using stop_failed_goes_down [OF f] r by blast
  moreover have "node_runs failed_world = []"
    by (simp add: failed_world_def running_world_def deployment_def)
  ultimately show ?thesis
    by (simp add: r returned_def)
qed

theorem stop_failed_not_stopping:
  "instance_table Inst_failed Stop \<noteq> Some Inst_stopping
   \<and> map_option (\<lambda>w'. state (instance_heap w' 0)) (returned (stop 0 failed_world))
       = Some Inst_down"
  by (simp add: returned_def service_model_defs deployment_defs failed_world_def running_world_def)






text \<open>
  \<open>stop()\<close> on an instance that is starting dispatches its kill at once as well,
  with the start action outstanding, although \<open>_start_complete_callback\<close> is written
  to kick off the kill once the start has completed.
\<close>

lemma start_then_stop_two_outstanding:
  "map_option (\<lambda>w'. outstanding (instance_heap w' 2))
     (returned (and_then (start 2 fresh_world) (stop 2))) = Some 2"
  by (simp add: returned_def outstanding_def service_model_defs deployment_defs fresh_world_def)

text \<open>
  What an instance change computes. It first drops the instances that are down, then
  fires the events of \<open>aggregate_events\<close> on the service machine, in that order; if the
  machine is then degraded or failed, a restart interval is configured and the
  \<open>_restart_timer\<close> attribute is not set, it arms one restart timer and sets the
  attribute, and otherwise arms none.
\<close>

theorem instance_change_aggregates:
  assumes m: "machine (service_heap w s) = Some st"
  shows "\<exists>w'. instance_change s w = Inr w'
     \<and> instances (service_heap w' s) = live_instances s w
     \<and> machine (service_heap w' s) = Some (aggregate_state s st w)
     \<and> (case restart_interval (service_heap w s) of
          None \<Rightarrow>
            call_later w' = call_later w
            \<and> restart_timer (service_heap w' s) = restart_timer (service_heap w s)
        | Some delay \<Rightarrow>
            if (aggregate_state s st w = Svc_degraded \<or> aggregate_state s st w = Svc_failed)
               \<and> restart_timer (service_heap w s) = None
            then call_later w' = call_later w @ [(delay, Restart_after_failure s)]
                 \<and> restart_timer (service_heap w' s) = Some (length (call_later w))
            else call_later w' = call_later w
                 \<and> restart_timer (service_heap w' s) = restart_timer (service_heap w s))"
  unfolding instance_change_result [OF m] live_instances_def aggregate_state_def
  by (auto simp: arm_restart_timer_def split: option.splits)

theorem instance_change_aggregates_witness:
  "map_option (\<lambda>w'. (instances (service_heap w' 1), machine (service_heap w' 1), call_later w'))
     (returned (instance_change 1 scenario_b))
   = Some ([0], Some Svc_failed, [(60, Restart_after_failure 1)])"
proof -
  have m: "machine (service_heap scenario_b (Suc 0)) = Some Svc_up"
    by (simp add: scenario_b_def deployment_defs)
  have l: "live_instances (Suc 0) scenario_b = [0]"
    by (simp add: live_instances_def scenario_b_def deployment_defs)
  have a: "aggregate_state (Suc 0) Svc_up scenario_b = Svc_failed"
    unfolding aggregate_state_def l
    by (simp add: aggregate_events_def fire_def scenario_b_def deployment_defs)
  have i: "restart_interval (service_heap scenario_b (Suc 0)) = Some 60"
    "restart_timer (service_heap scenario_b (Suc 0)) = None" "call_later scenario_b = []"
    by (simp_all add: scenario_b_def deployment_defs)
  from instance_change_aggregates [OF m] show ?thesis
    by (auto simp: l a i returned_def)
qed

text \<open>
  Claim C5. A restart timer is to be armed once, and not again while one is pending.
  \<open>Service.start()\<close> clears the \<open>_restart_timer\<close> attribute (its comment: just to make
  sure we don't get any extraneous starts) without cancelling the timer it refers to. In
  scenario B the instance change arms a timer; when \<open>start()\<close> is then called, the
  instance change of the instance it builds finds the service still failed and the
  attribute cleared, and arms a second timer while the first has not fired.
\<close>

theorem restart_timer_armed_twice:
  "map_option (\<lambda>w'. (restart_timer (service_heap w' 1), call_later w'))
     (returned (instance_change 1 scenario_b))
     = Some (Some 0, [(60, Restart_after_failure 1)])
   \<and> map_option call_later
       (returned (and_then (instance_change 1 scenario_b) (service_start 1)))
     = Some [(60, Restart_after_failure 1), (60, Restart_after_failure 1)]"
proof -
  have n: "nat 1 = Suc 0" by simp
  show ?thesis
    by (simp add: n returned_def service_start_def clear_failed_instances_def scenario_b_def
        service_model_defs deployment_defs)
qed

theorem restart_timer_armed_twice_witness:
  "map_option (\<lambda>w'. length (call_later w'))
     (returned (and_then (instance_change 1 scenario_b) (service_start 1))) = Some 2"
  using restart_timer_armed_twice
  by (cases "returned (and_then (instance_change 1 scenario_b) (service_start 1))") auto

lemma find_eq_member: "find (\<lambda>n. n = h) xs = (if h \<in> set xs then Some h else None)"
  by (induction xs) auto

lemma pool_lookup_member:
  "pool_lookup pool h = (if h \<in> set (nodes pool) then Some h else None)"
  by (simp add: pool_lookup_def find_eq_member)

text \<open>One round of the loop of \<open>restore\<close>, when the node is in the pool and the pid file renders.\<close>

lemma restore_instances_step:
  assumes nd: "data_node d \<in> set (nodes (pool_heap w (node_pool (service_heap w s))))"
    and pt: "pid_file_template (service_heap w s) = Some t" and tne: "t \<noteq> []"
    and rn: "\<forall>i. render (service_heap w s) t i \<noteq> None"
  shows "\<exists>w2 act. restore_instances s (d # ds) w = restore_instances s ds w2
     \<and> instances (service_heap w2 s) =
         sort_key (\<lambda>x. if x = next_instance w then data_instance_number d
                        else instance_number (instance_heap w x))
           (instances (service_heap w s) @ [next_instance w])
     \<and> (\<forall>x. x \<noteq> next_instance w \<longrightarrow> instance_heap w2 x = instance_heap w x)
     \<and> state (instance_heap w2 (next_instance w)) = Inst_monitoring
     \<and> next_instance w2 = Suc (next_instance w)
     \<and> node_runs w2 = node_runs w @ [(data_node d, act)]
     \<and> action_instance act = data_instance_number d \<and> action_kind act = Monitor_action
     \<and> call_later w2 = call_later w \<and> pool_heap w2 = pool_heap w
     \<and> machine (service_heap w2 s) = machine (service_heap w s)
     \<and> node_pool (service_heap w2 s) = node_pool (service_heap w s)
     \<and> pid_file_template (service_heap w2 s) = pid_file_template (service_heap w s)
     \<and> render (service_heap w2 s) = render (service_heap w s)"
proof -
  obtain a w1 where c: "create_instance s (data_node d) (data_instance_number d) w = (a, w1)"
    by (cases "create_instance s (data_node d) (data_instance_number d) w")
  note cf = create_instance_fields [OF c]
  let ?w1b = "update_instance a (\<lambda>i. i\<lparr>state := Inst_monitoring\<rparr>) w1"
  obtain p where p: "render (service_heap w s) t (instance_heap ?w1b a) = Some p"
    using rn [rule_format, of "instance_heap ?w1b a"] by blast
  let ?act = "new_action a Monitor_action (''cat '' @ p @ '' | xargs kill -0'') ?w1b"
  let ?w2 = "node_run a ?act (update_instance a (\<lambda>i. i\<lparr>monitor_action := Some ?act\<rparr>) ?w1b)"
  have sv: "service_of ?w1b a = (service_heap w s)
      \<lparr>instances := sort_key (\<lambda>x. if x = next_instance w then data_instance_number d
                        else instance_number (instance_heap w x))
           (instances (service_heap w s) @ [a])\<rparr>"
    using cf by (simp add: service_of_def)
  have pf: "pid_file a ?w1b = (Some p, ?w1b)"
    using p by (simp add: pid_file_def sv pt tne)
  have tr: "instance_transition a Monitor ?w1b = Inr ?w1b"
    using cf by (simp add: instance_transition_None)
  have ma: "monitor_action (instance_heap ?w1b a) = None"
    using cf by simp
  have ma1: "monitor_action (instance_heap w1 a) = None"
    using cf by simp
  have rm: "run_monitor a ?w1b = Inr ?w2"
    by (simp add: run_monitor_def ma1 tr pf Let_def)
  have step: "restore_instances s (d # ds) w = restore_instances s ds ?w2"
    using nd by (simp add: pool_lookup_member c rm)
  have a: "a = next_instance w"
    using cf by simp
  have "instances (service_heap ?w2 s) =
         sort_key (\<lambda>x. if x = next_instance w then data_instance_number d
                        else instance_number (instance_heap w x))
           (instances (service_heap w s) @ [next_instance w])
     \<and> (\<forall>x. x \<noteq> next_instance w \<longrightarrow> instance_heap ?w2 x = instance_heap w x)
     \<and> state (instance_heap ?w2 (next_instance w)) = Inst_monitoring
     \<and> next_instance ?w2 = Suc (next_instance w)
     \<and> node_runs ?w2 = node_runs w @ [(data_node d, ?act)]
     \<and> action_instance ?act = data_instance_number d \<and> action_kind ?act = Monitor_action
     \<and> call_later ?w2 = call_later w \<and> pool_heap ?w2 = pool_heap w
     \<and> machine (service_heap ?w2 s) = machine (service_heap w s)
     \<and> node_pool (service_heap ?w2 s) = node_pool (service_heap w s)
     \<and> pid_file_template (service_heap ?w2 s) = pid_file_template (service_heap w s)
     \<and> render (service_heap ?w2 s) = render (service_heap w s)"
    using cf by (simp add: new_action_def)
  with step show ?thesis by blast
qed


lemma restore_instances_all:
  assumes nd: "\<forall>d\<in>set ds. data_node d \<in> set (nodes (pool_heap w (node_pool (service_heap w s))))"
    and pt: "pid_file_template (service_heap w s) = Some t" and tne: "t \<noteq> []"
    and rn: "\<forall>i. render (service_heap w s) t i \<noteq> None"
    and wf: "\<forall>a\<in>set (instances (service_heap w s)).
               a < next_instance w \<and> state (instance_heap w a) = Inst_monitoring"
  shows "\<exists>w'. restore_instances s ds w = Inr w'
     \<and> length (instances (service_heap w' s)) = length (instances (service_heap w s)) + length ds
     \<and> (\<forall>a\<in>set (instances (service_heap w' s)).
           a < next_instance w' \<and> state (instance_heap w' a) = Inst_monitoring)
     \<and> map dispatch_summary (node_runs w')
         = map dispatch_summary (node_runs w)
           @ map (\<lambda>d. (data_node d, data_instance_number d, Monitor_action)) ds
     \<and> call_later w' = call_later w
     \<and> machine (service_heap w' s) = machine (service_heap w s)"
  using assms
proof (induction ds arbitrary: w)
  case Nil
  then show ?case by simp
next
  case (Cons d ds)
  have nd1: "data_node d \<in> set (nodes (pool_heap w (node_pool (service_heap w s))))"
    using Cons.prems(1) by simp
  obtain w2 act where step: "restore_instances s (d # ds) w = restore_instances s ds w2"
    and roster: "instances (service_heap w2 s) =
         sort_key (\<lambda>x. if x = next_instance w then data_instance_number d
                        else instance_number (instance_heap w x))
           (instances (service_heap w s) @ [next_instance w])"
    and old: "\<forall>x. x \<noteq> next_instance w \<longrightarrow> instance_heap w2 x = instance_heap w x"
    and new: "state (instance_heap w2 (next_instance w)) = Inst_monitoring"
    and nx: "next_instance w2 = Suc (next_instance w)"
    and runs: "node_runs w2 = node_runs w @ [(data_node d, act)]"
    and act: "action_instance act = data_instance_number d" "action_kind act = Monitor_action"
    and same: "call_later w2 = call_later w" "pool_heap w2 = pool_heap w"
      "machine (service_heap w2 s) = machine (service_heap w s)"
      "node_pool (service_heap w2 s) = node_pool (service_heap w s)"
      "pid_file_template (service_heap w2 s) = pid_file_template (service_heap w s)"
      "render (service_heap w2 s) = render (service_heap w s)"
    using restore_instances_step [OF nd1 Cons.prems(2) Cons.prems(3) Cons.prems(4), of ds]
    by blast
  have nd2: "\<forall>d\<in>set ds. data_node d \<in> set (nodes (pool_heap w2 (node_pool (service_heap w2 s))))"
    using Cons.prems(1) by (simp add: same)
  have pt2: "pid_file_template (service_heap w2 s) = Some t"
    using Cons.prems(2) by (simp add: same)
  have rn2: "\<forall>i. render (service_heap w2 s) t i \<noteq> None"
    using Cons.prems(4) by (simp add: same)
  have wf2: "\<forall>a\<in>set (instances (service_heap w2 s)).
               a < next_instance w2 \<and> state (instance_heap w2 a) = Inst_monitoring"
  proof
    fix a assume "a \<in> set (instances (service_heap w2 s))"
    then have "a \<in> set (instances (service_heap w s)) \<or> a = next_instance w"
      by (auto simp: roster)
    then show "a < next_instance w2 \<and> state (instance_heap w2 a) = Inst_monitoring"
    proof
      assume m: "a \<in> set (instances (service_heap w s))"
      then have lt: "a < next_instance w" and st: "state (instance_heap w a) = Inst_monitoring"
        using Cons.prems(5) by auto
      have "instance_heap w2 a = instance_heap w a"
        using old lt by simp
      then show ?thesis using lt st by (simp add: nx)
    next
      assume "a = next_instance w"
      then show ?thesis by (simp add: nx new)
    qed
  qed
  obtain w' where r: "restore_instances s ds w2 = Inr w'"
    and len: "length (instances (service_heap w' s)) = length (instances (service_heap w2 s)) + length ds"
    and inv: "\<forall>a\<in>set (instances (service_heap w' s)).
           a < next_instance w' \<and> state (instance_heap w' a) = Inst_monitoring"
    and nr: "map dispatch_summary (node_runs w')
         = map dispatch_summary (node_runs w2)
           @ map (\<lambda>d. (data_node d, data_instance_number d, Monitor_action)) ds"
    and cl: "call_later w' = call_later w2"
    and mc: "machine (service_heap w' s) = machine (service_heap w2 s)"
    using Cons.IH [OF nd2 pt2 Cons.prems(3) rn2 wf2] by blast
  have "restore_instances s (d # ds) w = Inr w'"
    by (simp only: step r)
  moreover have "length (instances (service_heap w' s))
      = length (instances (service_heap w s)) + length (d # ds)"
    by (simp add: len roster)
  moreover have "map dispatch_summary (node_runs w')
         = map dispatch_summary (node_runs w)
           @ map (\<lambda>d. (data_node d, data_instance_number d, Monitor_action)) (d # ds)"
    by (simp add: nr runs dispatch_summary_def act)
  moreover have "call_later w' = call_later w" "machine (service_heap w' s) = machine (service_heap w s)"
    by (simp_all add: cl mc same)
  ultimately show ?case
    using inv by blast
qed


text \<open>
  The restore of a snapshot into a fresh service whose pid file renders, and into one
  whose pid file never does.
\<close>

lemma restore_rendering_pid_file:
  assumes up: "machine (service_heap w0 s0) = Some Svc_up"
    and nd: "\<forall>a\<in>set (instances (service_heap w0 s0)).
               node (instance_heap w0 a) \<in> set (nodes (pool_heap w (node_pool (service_heap w s))))"
    and fresh: "instances (service_heap w s) = []" "machine (service_heap w s) = Some Svc_down"
    and pt: "pid_file_template (service_heap w s) = Some t" and tne: "t \<noteq> []"
    and rn: "\<forall>i. render (service_heap w s) t i \<noteq> None"
  shows "\<exists>dt w'. data s0 w0 = Inr dt \<and> restore s dt w = Inr w'
     \<and> length (instances (service_heap w' s)) = length (instances (service_heap w0 s0))
     \<and> list_all (\<lambda>a. state (instance_heap w' a) = Inst_monitoring) (instances (service_heap w' s))
     \<and> map dispatch_summary (node_runs w')
         = map dispatch_summary (node_runs w)
           @ map (\<lambda>a. (node (instance_heap w0 a), instance_number (instance_heap w0 a),
                        Monitor_action)) (instances (service_heap w0 s0))
     \<and> call_later w' = call_later w
     \<and> machine (service_heap w' s) = Some Svc_up"
proof -
  let ?ds = "map (\<lambda>a. \<lparr>data_node = node (instance_heap w0 a),
                           data_instance_number = instance_number (instance_heap w0 a),
                           data_instance_state = instance_state_name (state (instance_heap w0 a))\<rparr>)
                   (instances (service_heap w0 s0))"
  let ?dt = "\<lparr>data_state = ''up'', data_instances = ?ds\<rparr>"
  let ?w1 = "update_service s (\<lambda>v. v\<lparr>machine := Some Svc_up\<rparr>) w"
  have dt: "data s0 w0 = Inr ?dt"
    by (simp add: data_def up)
  have nm: "named_event_by_name ''up'' = Some Svc_up"
    by (simp add: named_event_by_name_def)
  have nd1: "\<forall>d\<in>set ?ds. data_node d \<in> set (nodes (pool_heap ?w1 (node_pool (service_heap ?w1 s))))"
    using nd by simp
  have pt1: "pid_file_template (service_heap ?w1 s) = Some t"
    using pt by simp
  have rn1: "\<forall>i. render (service_heap ?w1 s) t i \<noteq> None"
    using rn by simp
  have wf1: "\<forall>a\<in>set (instances (service_heap ?w1 s)).
               a < next_instance ?w1 \<and> state (instance_heap ?w1 a) = Inst_monitoring"
    using fresh by simp
  obtain w2 where r: "restore_instances s ?ds ?w1 = Inr w2"
    and len: "length (instances (service_heap w2 s)) = length (instances (service_heap ?w1 s)) + length ?ds"
    and inv: "\<forall>a\<in>set (instances (service_heap w2 s)).
           a < next_instance w2 \<and> state (instance_heap w2 a) = Inst_monitoring"
    and nr: "map dispatch_summary (node_runs w2)
         = map dispatch_summary (node_runs ?w1)
           @ map (\<lambda>d. (data_node d, data_instance_number d, Monitor_action)) ?ds"
    and cl: "call_later w2 = call_later ?w1"
    and mc: "machine (service_heap w2 s) = machine (service_heap ?w1 s)"
    using restore_instances_all [OF nd1 pt1 tne rn1 wf1] by blast
  have rs: "restore s ?dt w = Inr (sort_instances s w2)"
    using fresh(2) by (simp add: restore_def nm r)
  have "length (instances (service_heap (sort_instances s w2) s))
          = length (instances (service_heap w0 s0))"
    using len fresh(1) by (simp add: sort_instances_def)
  moreover have "list_all (\<lambda>a. state (instance_heap (sort_instances s w2) a) = Inst_monitoring)
      (instances (service_heap (sort_instances s w2) s))"
    using inv by (simp add: sort_instances_def list_all_iff)
  moreover have "map dispatch_summary (node_runs (sort_instances s w2))
         = map dispatch_summary (node_runs w)
           @ map (\<lambda>a. (node (instance_heap w0 a), instance_number (instance_heap w0 a),
                        Monitor_action)) (instances (service_heap w0 s0))"
    using nr by (simp add: sort_instances_def comp_def)
  moreover have "call_later (sort_instances s w2) = call_later w"
    using cl by (simp add: sort_instances_def)
  moreover have "machine (service_heap (sort_instances s w2) s) = Some Svc_up"
    using mc by (simp add: sort_instances_def)
  ultimately show ?thesis
    using dt rs by blast
qed

text \<open>
  One round of the loop of \<open>restore\<close>, and the whole loop, when the node is in the pool
  and the pid file does not render: the template is not configured or empty, or it
  renders for no instance.
\<close>

lemma restore_instances_step_no_pid_file:
  assumes nd: "data_node d \<in> set (nodes (pool_heap w (node_pool (service_heap w s))))"
    and np: "pid_file_template (service_heap w s) = None
             \<or> pid_file_template (service_heap w s) = Some []
             \<or> (\<exists>t. pid_file_template (service_heap w s) = Some t
                    \<and> (\<forall>i. render (service_heap w s) t i = None))"
    and m: "machine (service_heap w s) \<noteq> None"
  shows "\<exists>w2. restore_instances s (d # ds) w = restore_instances s ds w2
     \<and> instances (service_heap w2 s) =
         filter (\<lambda>x. state (instance_heap w2 x) \<noteq> Inst_down)
           (sort_key (\<lambda>x. if x = next_instance w then data_instance_number d
                        else instance_number (instance_heap w x))
             (instances (service_heap w s) @ [next_instance w]))
     \<and> (\<forall>x. x \<noteq> next_instance w \<longrightarrow> instance_heap w2 x = instance_heap w x)
     \<and> state (instance_heap w2 (next_instance w)) = Inst_unknown
     \<and> next_instance w2 = Suc (next_instance w)
     \<and> node_runs w2 = node_runs w \<and> pool_heap w2 = pool_heap w
     \<and> machine (service_heap w2 s) \<noteq> None
     \<and> node_pool (service_heap w2 s) = node_pool (service_heap w s)
     \<and> pid_file_template (service_heap w2 s) = pid_file_template (service_heap w s)
     \<and> render (service_heap w2 s) = render (service_heap w s)"
proof -
  obtain a w1 where c: "create_instance s (data_node d) (data_instance_number d) w = (a, w1)"
    by (cases "create_instance s (data_node d) (data_instance_number d) w")
  note cf = create_instance_fields [OF c]
  have a: "a = next_instance w"
    using cf by simp
  let ?w1b = "update_instance a (\<lambda>i. i\<lparr>state := Inst_monitoring\<rparr>) w1"
  have sv: "service_of ?w1b a = (service_heap w s)
      \<lparr>instances := sort_key (\<lambda>x. if x = next_instance w then data_instance_number d
                        else instance_number (instance_heap w x))
           (instances (service_heap w s) @ [a])\<rparr>"
    using cf by (simp add: service_of_def)
  have rsv: "render (service_of ?w1b a) = render (service_heap w s)"
    "pid_file_template (service_of ?w1b a) = pid_file_template (service_heap w s)"
    by (simp_all add: sv)
  define lm where "lm =
    (if pid_file_template (service_heap w s) = None \<or> pid_file_template (service_heap w s) = Some []
     then No_pid_file_configured else Pid_file_render_failed)"
  have pf: "pid_file a ?w1b = (None, write_log lm ?w1b)"
    using np unfolding pid_file_def rsv lm_def by (auto split: option.splits)
  let ?w2' = "write_log lm ?w1b"
  have tr: "instance_transition a Monitor ?w1b = Inr ?w1b"
    using cf by (simp add: instance_transition_None)
  have ma1: "monitor_action (instance_heap w1 a) = None"
    using cf by simp
  have t2: "instance_table (state (instance_heap ?w2' a)) Monitor_fail = Some Inst_unknown"
    by simp
  have l2: "listeners (instance_heap ?w2' a) = [s]"
    using cf by simp
  let ?wU = "update_instance a (\<lambda>i. i\<lparr>state := Inst_unknown\<rparr>) ?w2'"
  obtain st0 where mU: "machine (service_heap ?wU s) = Some st0"
    using m cf by auto
  obtain w3 where ic: "instance_change s ?wU = Inr w3"
    using instance_change_result [OF mU] by blast
  have w3: "instance_transition a Monitor_fail ?w2' = Inr w3"
    unfolding instance_transition_def t2 l2 using ic by simp
  note f = instance_transition_Some [OF t2 l2 w3]
  let ?w2 = "update_instance a (\<lambda>i. i\<lparr>monitor_action := None\<rparr>) (queue_monitor a w3)"
  have rm: "run_monitor a ?w1b = Inr ?w2"
    by (simp add: run_monitor_def ma1 tr pf monitor_complete_failstart_def w3)
  have step: "restore_instances s (d # ds) w = restore_instances s ds ?w2"
    using nd by (simp add: pool_lookup_member c rm)
  have h2: "instance_heap ?w2 =
      (instance_heap w)(a := \<lparr>instance_number = data_instance_number d, node = data_node d,
          service = s, state = Inst_unknown, listeners = [s], monitor_action = None,
          start_action = None, stop_action = None\<rparr>)"
    using cf by (simp add: f(1) fun_eq_iff queue_monitor_fields)
  have st2: "\<And>x. state (instance_heap ?w2 x) = state (instance_heap w3 x)"
    by (simp add: queue_monitor_fields)
  have r2: "instances (service_heap ?w2 s) =
         filter (\<lambda>x. state (instance_heap ?w2 x) \<noteq> Inst_down)
           (sort_key (\<lambda>x. if x = next_instance w then data_instance_number d
                        else instance_number (instance_heap w x))
             (instances (service_heap w s) @ [next_instance w]))"
    unfolding st2 using f(5) cf by (simp add: queue_monitor_fields)
  have "(\<forall>x. x \<noteq> next_instance w \<longrightarrow> instance_heap ?w2 x = instance_heap w x)
     \<and> state (instance_heap ?w2 (next_instance w)) = Inst_unknown"
    unfolding h2 by (simp add: a)
  moreover have "next_instance ?w2 = Suc (next_instance w)
     \<and> node_runs ?w2 = node_runs w \<and> pool_heap ?w2 = pool_heap w
     \<and> machine (service_heap ?w2 s) \<noteq> None
     \<and> node_pool (service_heap ?w2 s) = node_pool (service_heap w s)
     \<and> pid_file_template (service_heap ?w2 s) = pid_file_template (service_heap w s)
     \<and> render (service_heap ?w2 s) = render (service_heap w s)"
    using cf f(13) by (simp add: f(2) f(3) f(4) f(8) f(10) f(11) queue_monitor_fields)
  ultimately show ?thesis
    using step r2 by blast
qed

lemma restore_instances_all_no_pid_file:
  assumes nd: "\<forall>d\<in>set ds. data_node d \<in> set (nodes (pool_heap w (node_pool (service_heap w s))))"
    and np: "pid_file_template (service_heap w s) = None
             \<or> pid_file_template (service_heap w s) = Some []
             \<or> (\<exists>t. pid_file_template (service_heap w s) = Some t
                    \<and> (\<forall>i. render (service_heap w s) t i = None))"
    and m: "machine (service_heap w s) \<noteq> None"
    and wf: "\<forall>a\<in>set (instances (service_heap w s)).
               a < next_instance w \<and> state (instance_heap w a) = Inst_unknown"
  shows "\<exists>w'. restore_instances s ds w = Inr w'
     \<and> length (instances (service_heap w' s)) = length (instances (service_heap w s)) + length ds
     \<and> (\<forall>a\<in>set (instances (service_heap w' s)).
           a < next_instance w' \<and> state (instance_heap w' a) = Inst_unknown)
     \<and> node_runs w' = node_runs w"
  using assms
proof (induction ds arbitrary: w)
  case Nil
  then show ?case by simp
next
  case (Cons d ds)
  have nd1: "data_node d \<in> set (nodes (pool_heap w (node_pool (service_heap w s))))"
    using Cons.prems(1) by simp
  let ?key = "\<lambda>x. if x = next_instance w then data_instance_number d
                        else instance_number (instance_heap w x)"
  obtain w2 where step: "restore_instances s (d # ds) w = restore_instances s ds w2"
    and roster: "instances (service_heap w2 s) =
         filter (\<lambda>x. state (instance_heap w2 x) \<noteq> Inst_down)
           (sort_key ?key (instances (service_heap w s) @ [next_instance w]))"
    and old: "\<forall>x. x \<noteq> next_instance w \<longrightarrow> instance_heap w2 x = instance_heap w x"
    and new: "state (instance_heap w2 (next_instance w)) = Inst_unknown"
    and nx: "next_instance w2 = Suc (next_instance w)"
    and runs: "node_runs w2 = node_runs w"
    and same: "pool_heap w2 = pool_heap w"
      "machine (service_heap w2 s) \<noteq> None"
      "node_pool (service_heap w2 s) = node_pool (service_heap w s)"
      "pid_file_template (service_heap w2 s) = pid_file_template (service_heap w s)"
      "render (service_heap w2 s) = render (service_heap w s)"
    using restore_instances_step_no_pid_file [OF nd1 Cons.prems(2) Cons.prems(3), of ds]
    by blast
  have unk: "\<And>x. x \<in> set (instances (service_heap w s) @ [next_instance w]) \<Longrightarrow>
      x < next_instance w2 \<and> state (instance_heap w2 x) = Inst_unknown"
  proof -
    fix x assume "x \<in> set (instances (service_heap w s) @ [next_instance w])"
    then have "x \<in> set (instances (service_heap w s)) \<or> x = next_instance w"
      by auto
    then show "x < next_instance w2 \<and> state (instance_heap w2 x) = Inst_unknown"
    proof
      assume mm: "x \<in> set (instances (service_heap w s))"
      then have lt: "x < next_instance w" and st: "state (instance_heap w x) = Inst_unknown"
        using Cons.prems(4) by auto
      have "instance_heap w2 x = instance_heap w x"
        using old lt by simp
      then show ?thesis using lt st by (simp add: nx)
    next
      assume "x = next_instance w"
      then show ?thesis by (simp add: nx new)
    qed
  qed
  have roster2: "instances (service_heap w2 s)
      = sort_key ?key (instances (service_heap w s) @ [next_instance w])"
    unfolding roster by (rule filter_True) (use unk in auto)
  have nd2: "\<forall>d\<in>set ds. data_node d \<in> set (nodes (pool_heap w2 (node_pool (service_heap w2 s))))"
    using Cons.prems(1) by (simp add: same)
  have np2: "pid_file_template (service_heap w2 s) = None
             \<or> pid_file_template (service_heap w2 s) = Some []
             \<or> (\<exists>t. pid_file_template (service_heap w2 s) = Some t
                    \<and> (\<forall>i. render (service_heap w2 s) t i = None))"
    using Cons.prems(2) by (simp add: same)
  have wf2: "\<forall>a\<in>set (instances (service_heap w2 s)).
               a < next_instance w2 \<and> state (instance_heap w2 a) = Inst_unknown"
    unfolding roster2 using unk by simp
  obtain w' where r: "restore_instances s ds w2 = Inr w'"
    and len: "length (instances (service_heap w' s)) = length (instances (service_heap w2 s)) + length ds"
    and inv: "\<forall>a\<in>set (instances (service_heap w' s)).
           a < next_instance w' \<and> state (instance_heap w' a) = Inst_unknown"
    and nr: "node_runs w' = node_runs w2"
    using Cons.IH [OF nd2 np2 same(2) wf2] by blast
  have "restore_instances s (d # ds) w = Inr w'"
    by (simp only: step r)
  moreover have "length (instances (service_heap w' s))
      = length (instances (service_heap w s)) + length (d # ds)"
    by (simp add: len roster2)
  moreover have "node_runs w' = node_runs w"
    by (simp add: nr runs)
  ultimately show ?case
    using inv by blast
qed


lemma restore_no_pid_file:
  assumes up: "machine (service_heap w0 s0) = Some Svc_up"
    and nd: "\<forall>a\<in>set (instances (service_heap w0 s0)).
               node (instance_heap w0 a) \<in> set (nodes (pool_heap w (node_pool (service_heap w s))))"
    and fresh: "instances (service_heap w s) = []" "machine (service_heap w s) = Some Svc_down"
    and np: "pid_file_template (service_heap w s) = None
             \<or> pid_file_template (service_heap w s) = Some []
             \<or> (\<exists>t. pid_file_template (service_heap w s) = Some t
                    \<and> (\<forall>i. render (service_heap w s) t i = None))"
  shows "\<exists>dt w'. data s0 w0 = Inr dt \<and> restore s dt w = Inr w'
     \<and> length (instances (service_heap w' s)) = length (instances (service_heap w0 s0))
     \<and> list_all (\<lambda>a. state (instance_heap w' a) = Inst_unknown) (instances (service_heap w' s))
     \<and> node_runs w' = node_runs w"
proof -
  let ?ds = "map (\<lambda>a. \<lparr>data_node = node (instance_heap w0 a),
                           data_instance_number = instance_number (instance_heap w0 a),
                           data_instance_state = instance_state_name (state (instance_heap w0 a))\<rparr>)
                   (instances (service_heap w0 s0))"
  let ?dt = "\<lparr>data_state = ''up'', data_instances = ?ds\<rparr>"
  let ?w1 = "update_service s (\<lambda>v. v\<lparr>machine := Some Svc_up\<rparr>) w"
  have dt: "data s0 w0 = Inr ?dt"
    by (simp add: data_def up)
  have nm: "named_event_by_name ''up'' = Some Svc_up"
    by (simp add: named_event_by_name_def)
  have nd1: "\<forall>d\<in>set ?ds. data_node d \<in> set (nodes (pool_heap ?w1 (node_pool (service_heap ?w1 s))))"
    using nd by simp
  have np1: "pid_file_template (service_heap ?w1 s) = None
             \<or> pid_file_template (service_heap ?w1 s) = Some []
             \<or> (\<exists>t. pid_file_template (service_heap ?w1 s) = Some t
                    \<and> (\<forall>i. render (service_heap ?w1 s) t i = None))"
    using np by simp
  have m1: "machine (service_heap ?w1 s) \<noteq> None"
    by simp
  have wf1: "\<forall>a\<in>set (instances (service_heap ?w1 s)).
               a < next_instance ?w1 \<and> state (instance_heap ?w1 a) = Inst_unknown"
    using fresh by simp
  obtain w2 where r: "restore_instances s ?ds ?w1 = Inr w2"
    and len: "length (instances (service_heap w2 s)) = length (instances (service_heap ?w1 s)) + length ?ds"
    and inv: "\<forall>a\<in>set (instances (service_heap w2 s)).
           a < next_instance w2 \<and> state (instance_heap w2 a) = Inst_unknown"
    and nr: "node_runs w2 = node_runs ?w1"
    using restore_instances_all_no_pid_file [OF nd1 np1 m1 wf1] by blast
  have rs: "restore s ?dt w = Inr (sort_instances s w2)"
    using fresh(2) by (simp add: restore_def nm r)
  have "length (instances (service_heap (sort_instances s w2) s))
          = length (instances (service_heap w0 s0))"
    using len fresh(1) by (simp add: sort_instances_def)
  moreover have "list_all (\<lambda>a. state (instance_heap (sort_instances s w2) a) = Inst_unknown)
      (instances (service_heap (sort_instances s w2) s))"
    using inv by (simp add: sort_instances_def list_all_iff)
  moreover have "node_runs (sort_instances s w2) = node_runs w"
    using nr by (simp add: sort_instances_def)
  ultimately show ?thesis
    using dt rs by blast
qed

text \<open>
  Claim C7, as the code has it. Snapshot a service in state \<open>up\<close> whose instances'
  nodes are all in the pool, and restore the snapshot into a fresh service. If the pid
  file of the fresh service renders, the restore returns, the fresh service has as
  many instances, each in \<open>monitoring\<close>, and exactly one monitor action has been
  dispatched per instance (and no start action, and no timer). If the pid file is not
  configured, is empty or renders for no instance, the restore returns with as many
  instances, each in \<open>unknown\<close>, and has dispatched nothing.
\<close>

theorem snapshot_restore_monitors:
  assumes up: "machine (service_heap w0 s0) = Some Svc_up"
    and nd: "\<forall>a\<in>set (instances (service_heap w0 s0)).
               node (instance_heap w0 a) \<in> set (nodes (pool_heap w (node_pool (service_heap w s))))"
    and fresh: "instances (service_heap w s) = []" "machine (service_heap w s) = Some Svc_down"
  shows "\<exists>dt. data s0 w0 = Inr dt
     \<and> ((\<exists>t. pid_file_template (service_heap w s) = Some t \<and> t \<noteq> []
              \<and> (\<forall>i. render (service_heap w s) t i \<noteq> None)) \<longrightarrow>
          (\<exists>w'. restore s dt w = Inr w'
             \<and> length (instances (service_heap w' s)) = length (instances (service_heap w0 s0))
             \<and> list_all (\<lambda>a. state (instance_heap w' a) = Inst_monitoring)
                   (instances (service_heap w' s))
             \<and> map dispatch_summary (node_runs w')
                 = map dispatch_summary (node_runs w)
                   @ map (\<lambda>a. (node (instance_heap w0 a), instance_number (instance_heap w0 a),
                                Monitor_action)) (instances (service_heap w0 s0))
             \<and> call_later w' = call_later w
             \<and> machine (service_heap w' s) = Some Svc_up))
     \<and> (pid_file_template (service_heap w s) = None
          \<or> pid_file_template (service_heap w s) = Some []
          \<or> (\<exists>t. pid_file_template (service_heap w s) = Some t
                 \<and> (\<forall>i. render (service_heap w s) t i = None)) \<longrightarrow>
          (\<exists>w'. restore s dt w = Inr w'
             \<and> length (instances (service_heap w' s)) = length (instances (service_heap w0 s0))
             \<and> list_all (\<lambda>a. state (instance_heap w' a) = Inst_unknown)
                   (instances (service_heap w' s))
             \<and> node_runs w' = node_runs w))"
proof -
  obtain dt where dt: "data s0 w0 = Inr dt"
    using up by (simp add: data_def)
  have a: "\<exists>w'. restore s dt w = Inr w'
             \<and> length (instances (service_heap w' s)) = length (instances (service_heap w0 s0))
             \<and> list_all (\<lambda>a. state (instance_heap w' a) = Inst_monitoring)
                   (instances (service_heap w' s))
             \<and> map dispatch_summary (node_runs w')
                 = map dispatch_summary (node_runs w)
                   @ map (\<lambda>a. (node (instance_heap w0 a), instance_number (instance_heap w0 a),
                                Monitor_action)) (instances (service_heap w0 s0))
             \<and> call_later w' = call_later w
             \<and> machine (service_heap w' s) = Some Svc_up"
    if h: "\<exists>t. pid_file_template (service_heap w s) = Some t \<and> t \<noteq> []
              \<and> (\<forall>i. render (service_heap w s) t i \<noteq> None)"
  proof -
    obtain t where pt: "pid_file_template (service_heap w s) = Some t" and tne: "t \<noteq> []"
      and rn: "\<forall>i. render (service_heap w s) t i \<noteq> None"
      using h by blast
    from restore_rendering_pid_file [OF up nd fresh pt tne rn] dt show ?thesis
      by auto
  qed
  have b: "\<exists>w'. restore s dt w = Inr w'
             \<and> length (instances (service_heap w' s)) = length (instances (service_heap w0 s0))
             \<and> list_all (\<lambda>a. state (instance_heap w' a) = Inst_unknown)
                   (instances (service_heap w' s))
             \<and> node_runs w' = node_runs w"
    if np: "pid_file_template (service_heap w s) = None
          \<or> pid_file_template (service_heap w s) = Some []
          \<or> (\<exists>t. pid_file_template (service_heap w s) = Some t
                 \<and> (\<forall>i. render (service_heap w s) t i = None))"
  proof -
    from restore_no_pid_file [OF up nd fresh np] dt show ?thesis
      by auto
  qed
  show ?thesis
    using dt a b by blast
qed

theorem snapshot_restore_monitors_witness:
  "(\<exists>dt w'. data 1 restart_world = Inr dt \<and> restore 0 dt restart_world = Inr w'
     \<and> length (instances (service_heap w' 0)) = 2
     \<and> list_all (\<lambda>a. state (instance_heap w' a) = Inst_monitoring) (instances (service_heap w' 0))
     \<and> map dispatch_summary (node_runs w')
         = [(''n1'', 0, Monitor_action), (''n1'', 1, Monitor_action)])
   \<and> (\<exists>dt w'. data 1 restart_world_no_pid_file = Inr dt
     \<and> restore 0 dt restart_world_no_pid_file = Inr w'
     \<and> length (instances (service_heap w' 0)) = 2
     \<and> list_all (\<lambda>a. state (instance_heap w' a) = Inst_unknown) (instances (service_heap w' 0))
     \<and> node_runs w' = [])"
proof -
  have 1: "machine (service_heap restart_world 1) = Some Svc_up"
    and 2: "\<forall>a\<in>set (instances (service_heap restart_world 1)).
               node (instance_heap restart_world a)
                 \<in> set (nodes (pool_heap restart_world (node_pool (service_heap restart_world 0))))"
    and 3: "instances (service_heap restart_world 0) = []"
       "machine (service_heap restart_world 0) = Some Svc_down"
    and 4: "\<exists>t. pid_file_template (service_heap restart_world 0) = Some t \<and> t \<noteq> []
              \<and> (\<forall>i. render (service_heap restart_world 0) t i \<noteq> None)"
    by (simp_all add: restart_world_def deployment_defs)
  have 6: "instances (service_heap restart_world 1) = [0, 1]" "node_runs restart_world = []"
    "\<And>a. node (instance_heap restart_world a) = ''n1''"
    "\<And>a. instance_number (instance_heap restart_world a) = int a"
    by (simp_all add: restart_world_def deployment_defs)
  have 11: "machine (service_heap restart_world_no_pid_file 1) = Some Svc_up"
    and 12: "\<forall>a\<in>set (instances (service_heap restart_world_no_pid_file 1)).
               node (instance_heap restart_world_no_pid_file a)
                 \<in> set (nodes (pool_heap restart_world_no_pid_file
                       (node_pool (service_heap restart_world_no_pid_file 0))))"
    and 13: "instances (service_heap restart_world_no_pid_file 0) = []"
       "machine (service_heap restart_world_no_pid_file 0) = Some Svc_down"
    and 14: "pid_file_template (service_heap restart_world_no_pid_file 0) = None"
    by (simp_all add: restart_world_no_pid_file_def deployment_defs)
  have 16: "instances (service_heap restart_world_no_pid_file 1) = [0, 1]"
    "node_runs restart_world_no_pid_file = []"
    by (simp_all add: restart_world_no_pid_file_def deployment_defs)
  have a: "\<exists>dt w'. data 1 restart_world = Inr dt \<and> restore 0 dt restart_world = Inr w'
     \<and> length (instances (service_heap w' 0)) = 2
     \<and> list_all (\<lambda>a. state (instance_heap w' a) = Inst_monitoring) (instances (service_heap w' 0))
     \<and> map dispatch_summary (node_runs w')
         = [(''n1'', 0, Monitor_action), (''n1'', 1, Monitor_action)]"
    using snapshot_restore_monitors [OF 1 2 3] 4 unfolding 6 by (auto simp: numeral_2_eq_2)
  have b: "\<exists>dt w'. data 1 restart_world_no_pid_file = Inr dt
     \<and> restore 0 dt restart_world_no_pid_file = Inr w'
     \<and> length (instances (service_heap w' 0)) = 2
     \<and> list_all (\<lambda>a. state (instance_heap w' a) = Inst_unknown) (instances (service_heap w' 0))
     \<and> node_runs w' = []"
    using snapshot_restore_monitors [OF 11 12 13] 14 unfolding 16 by (auto simp: numeral_2_eq_2)
  show ?thesis
    using a b by blast
qed

theorem restore_without_pid_file_dispatches_nothing:
  "map_option
     (\<lambda>w'. (map (\<lambda>a. state (instance_heap w' a)) (instances (service_heap w' 0)), node_runs w'))
     (returned (and_then (data 1 restart_world_no_pid_file)
                  (\<lambda>dt. restore 0 dt restart_world_no_pid_file)))
   = Some ([Inst_unknown, Inst_unknown], [])"
  by (simp add: returned_def data_def restore_def named_event_by_name_def service_model_defs
      deployment_defs restart_world_no_pid_file_def)

text \<open>
  After a reduction of the target count from 3 to 2, the new service inherits the
  instances number 0 and 2: number 2 is not in \<open>[0, 2)\<close>.
\<close>

theorem absorb_previous_keeps_number_beyond_count:
  "map_option (\<lambda>w'. (instance_numbers 0 w', count (service_heap w' 0)))
     (returned (absorb_previous 0 1 shrunk_world)) = Some ([0, 2], 2)"
  by (simp add: returned_def instance_numbers_def service_model_defs deployment_defs
      shrunk_world_def fill_instances.simps)

lemma shrunk_find_unused: "find_unused_instance_number 1 shrunk_world = Some 1"
proof -
  have e: "{0..2::int} - {0, 2} = {1}" by auto
  have "(1::int) \<in> {0..2}" and "(1::int) \<notin> {0, 2}" by simp_all
  then have ne: "\<not> {0..2::int} \<subseteq> {0, 2}" by blast
  show ?thesis
    by (simp add: find_unused_instance_number_def shrunk_world_def deployment_defs Let_def e ne)
qed

lemma shrunk_build_returns: "returned (build_instance 1 shrunk_world) \<noteq> None"
  by (simp add: returned_def service_model_defs deployment_defs shrunk_world_def)


lemma distinct_map_sort_key:
  "distinct (map f (sort_key k xs)) = distinct (map f xs)"
  by (simp add: distinct_map)

text \<open>
  What \<open>build_instance\<close> does to the roster of a service whose roster refers to
  allocated instances only.
\<close>

lemma build_instance_allocates:
  assumes wf: "\<forall>a\<in>set (instances (service_heap w s)). a < next_instance w"
  shows "(find_unused_instance_number s w = None \<longleftrightarrow>
            (\<forall>k. 0 \<le> k \<and> k < count (service_heap w s) \<longrightarrow> k \<in> set (instance_numbers s w)))
    \<and> (find_unused_instance_number s w = None \<longrightarrow>
          (\<exists>w'. build_instance s w = Inr (None, w')
             \<and> instances (service_heap w' s) = instances (service_heap w s)
             \<and> log w' = log w @ [Cannot_build_instance]))
    \<and> (\<forall>n r w'. find_unused_instance_number s w = Some n \<and> build_instance s w = Inr (r, w') \<longrightarrow>
          r = Some (next_instance w)
          \<and> instance_number (instance_heap w' (next_instance w)) = n
          \<and> 0 \<le> n \<and> n < count (service_heap w s) \<and> n \<notin> set (instance_numbers s w)
          \<and> (\<forall>k. 0 \<le> k \<and> k < n \<longrightarrow> k \<in> set (instance_numbers s w))
          \<and> set (instance_numbers s w') \<subseteq> insert n (set (instance_numbers s w))
          \<and> (distinct (instance_numbers s w) \<longrightarrow> distinct (instance_numbers s w'))
          \<and> ((\<forall>k\<in>set (instance_numbers s w). 0 \<le> k \<and> k < count (service_heap w s)) \<longrightarrow>
               (\<forall>k\<in>set (instance_numbers s w'). 0 \<le> k \<and> k < count (service_heap w' s))))"
proof (intro conjI allI impI)
  show "find_unused_instance_number s w = None \<longleftrightarrow>
            (\<forall>k. 0 \<le> k \<and> k < count (service_heap w s) \<longrightarrow> k \<in> set (instance_numbers s w))"
    by (auto simp: find_unused_None instance_numbers_def)
next
  assume none: "find_unused_instance_number s w = None"
  let ?w1 = "snd (next_round_robin (node_pool (service_heap w s)) w)"
  have "find_unused_instance_number s ?w1 = find_unused_instance_number s w"
    by (rule find_unused_cong) simp_all
  then have "build_instance s w = Inr (None, write_log Cannot_build_instance ?w1)"
    using none
    by (cases "next_round_robin (node_pool (service_heap w s)) w") (simp add: build_instance_def)
  then show "\<exists>w'. build_instance s w = Inr (None, w')
             \<and> instances (service_heap w' s) = instances (service_heap w s)
             \<and> log w' = log w @ [Cannot_build_instance]"
    by simp
next
  fix n r w'
  assume h: "find_unused_instance_number s w = Some n \<and> build_instance s w = Inr (r, w')"
  then have f: "find_unused_instance_number s w = Some n" and b: "build_instance s w = Inr (r, w')"
    by simp_all
  note bf = build_instance_Some [OF b f]
  note fu = find_unused_Some [OF f]
  let ?a = "next_instance w"
  let ?xs = "instances (service_heap w s)"
  let ?f = "\<lambda>x. if x = ?a then n else instance_number (instance_heap w x)"
  let ?P = "\<lambda>x. x = ?a \<or> state (instance_heap w x) \<noteq> Inst_down"
  have fresh: "?a \<notin> set ?xs"
    using wf by auto
  have roster: "instances (service_heap w' s) = filter ?P (sort_key ?f (?xs @ [?a]))"
    using bf by simp
  have num': "\<And>x. instance_number (instance_heap w' x) = ?f x"
    using bf by auto
  have nums': "instance_numbers s w' = map ?f (filter ?P (sort_key ?f (?xs @ [?a])))"
    by (simp add: instance_numbers_def roster num')
  have old: "map ?f ?xs = instance_numbers s w"
    unfolding instance_numbers_def using fresh by (intro map_cong) auto
  have all: "map ?f (?xs @ [?a]) = instance_numbers s w @ [n]"
    using old by simp
  show "r = Some (next_instance w)" using bf by simp
  show "instance_number (instance_heap w' (next_instance w)) = n" using bf by simp
  show "0 \<le> n" "n < count (service_heap w s)" using fu by simp_all
  show notin: "n \<notin> set (instance_numbers s w)"
    using fu(3) by (simp add: instance_numbers_def)
  show "\<And>k. 0 \<le> k \<and> k < n \<Longrightarrow> k \<in> set (instance_numbers s w)"
    using fu(4) by (simp add: instance_numbers_def)
  have "set (instance_numbers s w') \<subseteq> set (map ?f (?xs @ [?a]))"
    unfolding nums' by auto
  then show sub: "set (instance_numbers s w') \<subseteq> insert n (set (instance_numbers s w))"
    unfolding all by auto
  show "distinct (instance_numbers s w')" if d: "distinct (instance_numbers s w)"
  proof -
    have "distinct (map ?f (?xs @ [?a]))"
      unfolding all using d notin by simp
    then have "distinct (map ?f (sort_key ?f (?xs @ [?a])))"
      by (simp only: distinct_map_sort_key)
    then show ?thesis
      unfolding nums' by (rule distinct_map_filter)
  qed
  have cnt: "count (service_heap w' s) = count (service_heap w s)"
    using bf by simp
  show "\<forall>k\<in>set (instance_numbers s w'). 0 \<le> k \<and> k < count (service_heap w' s)"
    if "\<forall>k\<in>set (instance_numbers s w). 0 \<le> k \<and> k < count (service_heap w s)"
    using that sub fu(1) fu(2) unfolding cnt by auto
qed

lemma started_world_numbers: "instance_numbers 1 started_world = [0, 1]"
proof -
  have b: "\<And>s w. build_instances 2 s w
      = and_then (build_instance s w) (\<lambda>(_, w1). and_then (build_instance s w1) (\<lambda>(_, w2). Inr w2))"
    by (simp add: numeral_2_eq_2 and_then_def split: sum.splits prod.splits)
  have e: "{0..1::int} - {0} = {1}" by auto
  have m: "Min {0..1::int} = 0" by (rule Min_eqI) auto
  have "(1::int) \<in> {0..1}" and "(1::int) \<notin> {0}" by simp_all
  then have ne: "\<not> {0..1::int} \<subseteq> {0}" by blast
  show ?thesis
    by (simp add: b e m ne started_world_def instance_numbers_def service_start_def
        clear_failed_instances_def service_model_defs deployment_defs outcome_def)
qed

text \<open>
  Every operation that does not create an instance keeps each roster a selection of
  what it was and the instance numbers as they were.
\<close>

lemma outcome_simps [simp]:
  "outcome (Inr w) = w" "outcome (Inl (e, w)) = w"
  by (simp_all add: outcome_def)

lemma kept_refl [simp]: "kept w w"
  unfolding kept_def by (auto intro: exI [of _ "\<lambda>_. True"])

lemma kept_trans:
  assumes "kept w w1" and "kept w1 w2"
  shows "kept w w2"
proof -
  have "\<exists>Q. instances (service_heap w2 s) = filter Q (instances (service_heap w s))" for s
  proof -
    obtain Q1 where 1: "instances (service_heap w1 s) = filter Q1 (instances (service_heap w s))"
      using assms(1) unfolding kept_def by blast
    obtain Q2 where 2: "instances (service_heap w2 s) = filter Q2 (instances (service_heap w1 s))"
      using assms(2) unfolding kept_def by blast
    show ?thesis
      by (rule exI [of _ "\<lambda>x. Q1 x \<and> Q2 x"]) (simp add: 1 2 conj_commute)
  qed
  then show ?thesis
    using assms unfolding kept_def by simp
qed

named_theorems kept_intros

lemma kept_update_instance [kept_intros]:
  assumes "kept w0 w"
    and "instance_number (f (instance_heap w a)) = instance_number (instance_heap w a)"
  shows "kept w0 (update_instance a f w)"
proof -
  have "kept w (update_instance a f w)"
    unfolding kept_def using assms(2) by (auto intro: exI [of _ "\<lambda>_. True"])
  with assms(1) show ?thesis by (rule kept_trans)
qed

lemma kept_same:
  assumes "kept w0 w" and "next_instance w' = next_instance w"
    and "instance_heap w' = instance_heap w" and "service_heap w' = service_heap w"
  shows "kept w0 w'"
proof -
  have "kept w w'"
    unfolding kept_def using assms(2-4) by (auto intro: exI [of _ "\<lambda>_. True"])
  with assms(1) show ?thesis by (rule kept_trans)
qed

lemma kept_write_log [kept_intros]: "kept w0 w \<Longrightarrow> kept w0 (write_log m w)"
  by (erule kept_same) simp_all

lemma kept_node_run [kept_intros]: "kept w0 w \<Longrightarrow> kept w0 (node_run a act w)"
  by (erule kept_same) simp_all

lemma kept_call_later [kept_intros]: "kept w0 w \<Longrightarrow> kept w0 (w\<lparr>call_later := x\<rparr>)"
  by (erule kept_same) simp_all

lemma kept_queue_monitor [kept_intros]: "kept w0 w \<Longrightarrow> kept w0 (queue_monitor a w)"
proof -
  assume k: "kept w0 w"
  have "kept w (queue_monitor a w)"
    unfolding kept_def by (auto simp: queue_monitor_fields intro: exI [of _ "\<lambda>_. True"])
  with k show ?thesis by (rule kept_trans)
qed

lemma kept_update_service:
  assumes "kept w0 w"
    and "instances (f (service_heap w s)) = filter Q (instances (service_heap w s))"
  shows "kept w0 (update_service s f w)"
proof -
  have "\<exists>Q'. instances (service_heap (update_service s f w) s')
          = filter Q' (instances (service_heap w s'))" for s'
  proof (cases "s' = s")
    case True
    then show ?thesis using assms(2) by auto
  next
    case False
    then show ?thesis by (auto intro: exI [of _ "\<lambda>_. True"])
  qed
  then have "kept w (update_service s f w)"
    unfolding kept_def by simp
  with assms(1) show ?thesis by (rule kept_trans)
qed

lemma kept_update_service_same [kept_intros]:
  assumes "kept w0 w" and "instances (f (service_heap w s)) = instances (service_heap w s)"
  shows "kept w0 (update_service s f w)"
  by (rule kept_update_service [OF assms(1), where Q = "\<lambda>_. True"]) (simp add: assms(2))

lemma kept_and_then [kept_intros]:
  assumes "kept w0 (outcome r)"
    and "\<And>w1. r = Inr w1 \<Longrightarrow> kept w0 w1 \<Longrightarrow> kept w0 (outcome (f w1))"
  shows "kept w0 (outcome (and_then r f))"
proof (cases r)
  case (Inl e)
  then show ?thesis using assms(1) by (cases e) simp
next
  case (Inr w1)
  then show ?thesis using assms by simp
qed

lemma kept_service_transition [kept_intros]:
  "kept w0 w \<Longrightarrow> kept w0 (outcome (service_transition s ev w))"
  by (auto simp: service_transition_def split: option.splits intro!: kept_intros)

lemma instance_change_raise:
  assumes "machine (service_heap w s) = None"
  shows "outcome (instance_change s w)
           = update_service s (\<lambda>v. v\<lparr>instances := live_instances s w\<rparr>) w
       \<or> outcome (instance_change s w)
           = write_log Only_found_instances
               (update_service s (\<lambda>v. v\<lparr>instances := live_instances s w\<rparr>) w)"
  unfolding instance_change_def Let_def live_instances_def
  using assms by (auto simp: service_transition_def)

lemma kept_instance_change [kept_intros]:
  assumes "kept w0 w"
  shows "kept w0 (outcome (instance_change s w))"
proof -
  have "kept w (outcome (instance_change s w))"
  proof (cases "machine (service_heap w s)")
    case None
    have "kept w (update_service s (\<lambda>v. v\<lparr>instances := live_instances s w\<rparr>) w)"
      by (rule kept_update_service [where Q = "\<lambda>a. state (instance_heap w a) \<noteq> Inst_down"])
         (simp_all add: live_instances_def)
    then show ?thesis
      using instance_change_raise [OF None] by (auto intro: kept_write_log)
  next
    case (Some st)
    obtain w' where r: "instance_change s w = Inr w'"
      using instance_change_result [OF Some] by blast
    note f = instance_change_Inr [OF r]
    have "\<exists>Q. instances (service_heap w' s') = filter Q (instances (service_heap w s'))" for s'
    proof (cases "s' = s")
      case True
      then show ?thesis using f(5) by blast
    next
      case False
      then show ?thesis using f(17) [of s'] by (auto intro: exI [of _ "\<lambda>_. True"])
    qed
    then show ?thesis
      unfolding kept_def by (simp add: r f(1) f(2))
  qed
  with assms show ?thesis by (rule kept_trans)
qed

lemma kept_notify [kept_intros]: "kept w0 w \<Longrightarrow> kept w0 (outcome (notify ss w))"
  by (induction ss arbitrary: w) (auto intro!: kept_intros)

lemma kept_instance_transition [kept_intros]:
  "kept w0 w \<Longrightarrow> kept w0 (outcome (instance_transition a ev w))"
  by (auto simp: instance_transition_def split: option.splits intro!: kept_intros)

lemma kept_monitor_complete_failstart [kept_intros]:
  "kept w0 w \<Longrightarrow> kept w0 (outcome (monitor_complete_failstart a w))"
  by (auto simp: monitor_complete_failstart_def intro!: kept_intros)

lemma kept_run_monitor [kept_intros]:
  "kept w0 w \<Longrightarrow> kept w0 (outcome (run_monitor a w))"
  by (auto simp: run_monitor_def pid_file_def Let_def split: option.splits intro!: kept_intros)

lemma kept_monitor_complete_callback [kept_intros]:
  "kept w0 w \<Longrightarrow> kept w0 (outcome (monitor_complete_callback a w))"
  by (auto simp: monitor_complete_callback_def Let_def split: option.splits intro!: kept_intros)

lemma kept_kill_instance [kept_intros]:
  "kept w0 w \<Longrightarrow> kept w0 (outcome (kill_instance a w))"
  by (auto simp: kill_instance_def pid_file_def Let_def split: option.splits prod.splits
      intro!: kept_intros)

lemma kept_start_complete_failstart [kept_intros]:
  "kept w0 w \<Longrightarrow> kept w0 (outcome (start_complete_failstart a w))"
  by (auto simp: start_complete_failstart_def intro!: kept_intros)

lemma kept_start [kept_intros]:
  "kept w0 w \<Longrightarrow> kept w0 (outcome (start a w))"
  by (auto simp: start_def instance_command_def Let_def split: option.splits prod.splits
      intro!: kept_intros)

lemma kept_start_complete_callback [kept_intros]:
  "kept w0 w \<Longrightarrow> kept w0 (outcome (start_complete_callback a w))"
  by (auto simp: start_complete_callback_def Let_def split: option.splits intro!: kept_intros)

lemma kept_stop [kept_intros]:
  "kept w0 w \<Longrightarrow> kept w0 (outcome (stop a w))"
  by (auto simp: stop_def intro!: kept_intros)

lemma kept_stop_complete_callback [kept_intros]:
  "kept w0 w \<Longrightarrow> kept w0 (outcome (stop_complete_callback a w))"
  by (auto simp: stop_complete_callback_def Let_def split: option.splits intro!: kept_intros)

lemma kept_stop_complete_failstart [kept_intros]:
  "kept w0 w \<Longrightarrow> kept w0 (outcome (stop_complete_failstart a w))"
  by (auto simp: stop_complete_failstart_def intro!: kept_intros)

lemma kept_stop_each [kept_intros]:
  "kept w0 w \<Longrightarrow> kept w0 (outcome (stop_each as w))"
  by (induction as arbitrary: w) (auto intro!: kept_intros)

lemma kept_service_stop [kept_intros]:
  "kept w0 w \<Longrightarrow> kept w0 (outcome (service_stop s w))"
  by (auto simp: service_stop_def intro!: kept_intros)

lemma kept_clear_failed_instances [kept_intros]:
  "kept w0 w \<Longrightarrow> kept w0 (clear_failed_instances s w)"
  unfolding clear_failed_instances_def
  by (erule kept_update_service [where Q = "\<lambda>a. state (instance_heap w a) \<noteq> Inst_failed"]) simp


lemma outcome_snd_simps [simp]:
  "outcome_snd (Inr (x, w)) = w" "outcome_snd (Inl (e, w)) = w"
  by (simp_all add: outcome_snd_def)

lemma kept_and_then_snd:
  assumes "kept w0 (outcome r)"
    and "\<And>w1. r = Inr w1 \<Longrightarrow> kept w0 w1 \<Longrightarrow> kept w0 (outcome_snd (f w1))"
  shows "kept w0 (outcome_snd (and_then r f))"
proof (cases r)
  case (Inl e)
  then show ?thesis using assms(1) by (cases e) simp
next
  case (Inr w1)
  then show ?thesis using assms by simp
qed

lemma roster_ok_kept:
  assumes ok: "roster_ok w" and k: "kept w w'"
  shows "roster_ok w'"
  unfolding roster_ok_def
proof (intro allI conjI)
  fix s
  obtain Q where q: "instances (service_heap w' s) = filter Q (instances (service_heap w s))"
    using k unfolding kept_def by blast
  have nx: "next_instance w' = next_instance w"
    and num: "\<And>a. instance_number (instance_heap w' a) = instance_number (instance_heap w a)"
    using k unfolding kept_def by simp_all
  show "\<forall>a\<in>set (instances (service_heap w' s)). a < next_instance w'"
    using ok unfolding roster_ok_def q nx by auto
  have "distinct (map (\<lambda>a. instance_number (instance_heap w a)) (instances (service_heap w s)))"
    using ok unfolding roster_ok_def instance_numbers_def by blast
  then have "distinct (map (\<lambda>a. instance_number (instance_heap w a))
                 (filter Q (instances (service_heap w s))))"
    by (rule distinct_map_filter)
  then show "distinct (instance_numbers s w')"
    unfolding instance_numbers_def q num .
qed

lemma kept_numbers:
  assumes "kept w w'"
  shows "set (instance_numbers s w') \<subseteq> set (instance_numbers s w)"
proof -
  obtain Q where q: "instances (service_heap w' s) = filter Q (instances (service_heap w s))"
    using assms unfolding kept_def by blast
  have num: "\<And>a. instance_number (instance_heap w' a) = instance_number (instance_heap w a)"
    using assms unfolding kept_def by simp
  show ?thesis
    unfolding instance_numbers_def q num by auto
qed

lemma roster_ok_cong:
  "next_instance w' = next_instance w \<Longrightarrow> instance_heap w' = instance_heap w \<Longrightarrow>
     service_heap w' = service_heap w \<Longrightarrow> roster_ok w' = roster_ok w"
  by (simp add: roster_ok_def instance_numbers_def)

lemma roster_ok_and_then:
  assumes "roster_ok (outcome r)"
    and "\<And>w1. r = Inr w1 \<Longrightarrow> roster_ok w1 \<Longrightarrow> roster_ok (outcome (f w1))"
  shows "roster_ok (outcome (and_then r f))"
proof (cases r)
  case (Inl e)
  then show ?thesis using assms(1) by (cases e) simp
next
  case (Inr w1)
  then show ?thesis using assms by simp
qed

lemma roster_ok_and_then_snd:
  assumes "roster_ok (outcome_snd r)"
    and "\<And>x w1. r = Inr (x, w1) \<Longrightarrow> roster_ok w1 \<Longrightarrow> roster_ok (outcome (f (x, w1)))"
  shows "roster_ok (outcome (and_then r f))"
proof (cases r)
  case (Inl e)
  then show ?thesis using assms(1) by (cases e) simp
next
  case (Inr p)
  then show ?thesis using assms by (cases p) simp
qed

lemma roster_ok_sort_instances:
  assumes "roster_ok w"
  shows "roster_ok (sort_instances s w)"
  unfolding roster_ok_def
proof (intro allI conjI)
  fix s'
  show "\<forall>a\<in>set (instances (service_heap (sort_instances s w) s')). a < next_instance (sort_instances s w)"
    using assms unfolding roster_ok_def by (cases "s' = s") (auto simp: sort_instances_def)
  have d: "distinct (map (\<lambda>a. instance_number (instance_heap w a)) (instances (service_heap w s')))"
    using assms unfolding roster_ok_def instance_numbers_def by blast
  show "distinct (instance_numbers s' (sort_instances s w))"
    using d unfolding instance_numbers_def
    by (cases "s' = s") (simp_all add: sort_instances_def distinct_map_sort_key)
qed

lemma roster_ok_create_instance:
  assumes ok: "roster_ok w" and n: "n \<notin> set (instance_numbers s w)"
    and c: "create_instance s nd n w = (a, w2)"
  shows "roster_ok w2 \<and> set (instance_numbers s w2) = insert n (set (instance_numbers s w))"
proof -
  note cf = create_instance_fields [OF c]
  let ?a = "next_instance w"
  let ?key = "\<lambda>x. if x = ?a then n else instance_number (instance_heap w x)"
  have a: "a = ?a" using cf by simp
  have num2: "\<And>x. instance_number (instance_heap w2 x) = ?key x"
    using cf by (simp add: a)
  have fresh: "\<And>s'. ?a \<notin> set (instances (service_heap w s'))"
    using ok unfolding roster_ok_def by auto
  have old: "\<And>s'. map ?key (instances (service_heap w s')) = instance_numbers s' w"
    unfolding instance_numbers_def using fresh by (intro map_cong) auto
  have r_s: "instances (service_heap w2 s) = sort_key ?key (instances (service_heap w s) @ [?a])"
    using cf by (simp add: a)
  have r_o: "\<And>s'. s' \<noteq> s \<Longrightarrow> instances (service_heap w2 s') = instances (service_heap w s')"
    using cf by simp
  have nx: "next_instance w2 = Suc ?a" using cf by simp
  have all: "map ?key (instances (service_heap w s) @ [?a]) = instance_numbers s w @ [n]"
    using old [of s] by simp
  have nums_s: "instance_numbers s w2 = map ?key (sort_key ?key (instances (service_heap w s) @ [?a]))"
    by (simp add: instance_numbers_def r_s num2)
  have set_s: "set (instance_numbers s w2) = insert n (set (instance_numbers s w))"
  proof -
    have "set (instance_numbers s w2) = set (map ?key (instances (service_heap w s) @ [?a]))"
      unfolding nums_s by (simp only: set_map set_sort)
    also have "\<dots> = set (instance_numbers s w @ [n])"
      by (simp only: all)
    finally show ?thesis by simp
  qed
  have dist_s: "distinct (instance_numbers s w2)"
  proof -
    have "distinct (instance_numbers s w)"
      using ok unfolding roster_ok_def by blast
    then have "distinct (map ?key (instances (service_heap w s) @ [?a]))"
      unfolding all using n by simp
    then show ?thesis
      unfolding nums_s by (simp only: distinct_map_sort_key)
  qed
  have "roster_ok w2"
    unfolding roster_ok_def
  proof (intro allI conjI)
    fix s'
    show "\<forall>x\<in>set (instances (service_heap w2 s')). x < next_instance w2"
    proof (cases "s' = s")
      case True
      then show ?thesis using ok unfolding roster_ok_def nx by (auto simp: r_s less_Suc_eq)
    next
      case False
      then show ?thesis using ok unfolding roster_ok_def nx by (auto simp: r_o less_Suc_eq)
    qed
    show "distinct (instance_numbers s' w2)"
    proof (cases "s' = s")
      case True
      then show ?thesis using dist_s by simp
    next
      case False
      have "instance_numbers s' w2 = map ?key (instances (service_heap w s'))"
        by (simp add: instance_numbers_def r_o [OF False] num2)
      then have "instance_numbers s' w2 = instance_numbers s' w"
        by (simp only: old)
      then show ?thesis using ok unfolding roster_ok_def by simp
    qed
  qed
  then show ?thesis using set_s by simp
qed

lemma roster_ok_build_instance:
  assumes ok: "roster_ok w"
  shows "roster_ok (outcome_snd (build_instance s w))"
proof -
  obtain nd w1 where nr: "next_round_robin (node_pool (service_heap w s)) w = (nd, w1)"
    by (cases "next_round_robin (node_pool (service_heap w s)) w")
  have w1: "w1 = snd (next_round_robin (node_pool (service_heap w s)) w)"
    by (simp add: nr)
  have ok1: "roster_ok w1"
    using ok unfolding w1 by (subst roster_ok_cong [of _ w]) simp_all
  show ?thesis
  proof (cases "find_unused_instance_number s w1")
    case None
    have "roster_ok (write_log Cannot_build_instance w1)"
      using ok1 by (subst roster_ok_cong [of _ w1]) simp_all
    then show ?thesis
      by (simp add: build_instance_def nr None)
  next
    case (Some n)
    have n: "n \<notin> set (instance_numbers s w1)"
      using find_unused_Some(3) [OF Some] by (simp add: instance_numbers_def)
    obtain a w2 where c: "create_instance s nd n w1 = (a, w2)"
      by (cases "create_instance s nd n w1")
    have ok2: "roster_ok w2"
      using roster_ok_create_instance [OF ok1 n c] by simp
    have "kept w2 (outcome (start a w2))"
      by (rule kept_start) simp
    then have ok3: "roster_ok (outcome (start a w2))"
      by (rule roster_ok_kept [OF ok2])
    have "outcome_snd (and_then (start a w2) (\<lambda>w3. Inr (Some a, w3))) = outcome (start a w2)"
    proof (cases "start a w2")
      case (Inl e)
      then show ?thesis by (cases e) simp
    next
      case (Inr w3)
      then show ?thesis by simp
    qed
    then show ?thesis
      using ok3 by (simp add: build_instance_def nr Some c)
  qed
qed

lemma roster_ok_build_instances:
  "roster_ok w \<Longrightarrow> roster_ok (outcome (build_instances k s w))"
proof (induction k arbitrary: w)
  case 0
  then show ?case by simp
next
  case (Suc k)
  show ?case
    unfolding build_instances.simps
  proof (rule roster_ok_and_then_snd)
    show "roster_ok (outcome_snd (build_instance s w))"
      by (rule roster_ok_build_instance [OF Suc.prems])
  next
    fix x w1
    assume "roster_ok w1"
    then show "roster_ok (outcome (case (x, w1) of (uu, w1) \<Rightarrow> build_instances k s w1))"
      using Suc.IH by simp
  qed
qed

lemma roster_ok_service_transition:
  "roster_ok w \<Longrightarrow> roster_ok (outcome (service_transition s ev w))"
  by (erule roster_ok_kept) (rule kept_service_transition, simp)

lemma roster_ok_service_start:
  assumes "roster_ok w"
  shows "roster_ok (outcome (service_start s w))"
proof -
  let ?w2 = "clear_failed_instances s (update_service s (\<lambda>v. v\<lparr>restart_timer := None\<rparr>) w)"
  have "kept w ?w2"
    by (intro kept_intros) simp_all
  then have ok2: "roster_ok ?w2"
    by (rule roster_ok_kept [OF assms])
  show ?thesis
    unfolding service_start_def Let_def
  proof (rule roster_ok_and_then)
    show "roster_ok (outcome
        (if 0 < count (service_heap ?w2 s) - int (length (instances (service_heap ?w2 s)))
         then build_instances
                (nat (count (service_heap ?w2 s) - int (length (instances (service_heap ?w2 s)))))
                s ?w2
         else Inr ?w2))"
      using ok2 roster_ok_build_instances [OF ok2] by simp
  next
    fix w1 assume "roster_ok w1"
    then show "roster_ok (outcome (service_transition s Start w1))"
      by (rule roster_ok_service_transition)
  qed
qed

lemma roster_ok_restart_after_failure:
  assumes "roster_ok w"
  shows "roster_ok (outcome (restart_after_failure s w))"
proof -
  have 1: "roster_ok (write_log Restarting_failed_instances w)"
    using assms by (subst roster_ok_cong [of _ w]) simp_all
  have 2: "roster_ok (update_service s (\<lambda>v. v\<lparr>restart_timer := None\<rparr>) w)"
    by (rule roster_ok_kept [OF assms]) (intro kept_intros, simp_all)
  show ?thesis
    using assms roster_ok_service_start [OF 1] 2 by (simp add: restart_after_failure_def)
qed

lemma roster_ok_fill_instances:
  "roster_ok w \<Longrightarrow> roster_ok (outcome (fill_instances s w))"
proof (induction s w rule: fill_instances.induct)
  case (1 s w)
  show ?case
  proof (cases "int (length (instances (service_heap w s))) < count (service_heap w s)")
    case False
    then show ?thesis using "1.prems" by (subst fill_instances.simps) (simp only: if_False outcome_simps)
  next
    case True
    have "roster_ok (outcome (and_then (build_instance s w) (\<lambda>(_, w1). fill_instances s w1)))"
    proof (rule roster_ok_and_then_snd)
      show "roster_ok (outcome_snd (build_instance s w))"
        by (rule roster_ok_build_instance [OF "1.prems"])
    next
      fix x w1
      assume b: "build_instance s w = Inr (x, w1)" and ok1: "roster_ok w1"
      show "roster_ok (outcome (case (x, w1) of (uu, w1) \<Rightarrow> fill_instances s w1))"
        using "1.IH" [OF True b refl ok1] by simp
    qed
    then show ?thesis using True by (subst fill_instances.simps) (simp only: if_True)
  qed
qed


lemma roster_ok_restore_instances:
  "roster_ok w \<Longrightarrow> distinct (map data_instance_number ds) \<Longrightarrow>
     set (map data_instance_number ds) \<inter> set (instance_numbers s w) = {} \<Longrightarrow>
     roster_ok (outcome (restore_instances s ds w))"
proof (induction ds arbitrary: w)
  case Nil
  then show ?case by simp
next
  case (Cons d ds)
  let ?n = "data_instance_number d"
  have dist: "distinct (map data_instance_number ds)"
    and n_ds: "?n \<notin> set (map data_instance_number ds)"
    and n_w: "?n \<notin> set (instance_numbers s w)"
    and disj: "set (map data_instance_number ds) \<inter> set (instance_numbers s w) = {}"
    using Cons.prems(2) Cons.prems(3) by auto
  show ?case
  proof (cases "pool_lookup (pool_heap w (node_pool (service_heap w s))) (data_node d)")
    case None
    have ok': "roster_ok (write_log Node_not_found w)"
      using Cons.prems(1) by (subst roster_ok_cong [of _ w]) simp_all
    have same: "instance_numbers s (write_log Node_not_found w) = instance_numbers s w"
      by (simp add: instance_numbers_def)
    have "roster_ok (outcome (restore_instances s ds (write_log Node_not_found w)))"
      by (rule Cons.IH [OF ok' dist]) (simp only: same disj)
    then show ?thesis by (simp add: None)
  next
    case (Some nd)
    obtain a w1 where c: "create_instance s nd ?n w = (a, w1)"
      by (cases "create_instance s nd ?n w")
    have ok1: "roster_ok w1"
      and set1: "set (instance_numbers s w1) = insert ?n (set (instance_numbers s w))"
      using roster_ok_create_instance [OF Cons.prems(1) n_w c] by simp_all
    let ?w1b = "update_instance a (\<lambda>i. i\<lparr>state := Inst_monitoring\<rparr>) w1"
    have k: "kept w1 (outcome (run_monitor a ?w1b))"
      by (intro kept_intros) simp_all
    have "roster_ok (outcome (and_then (run_monitor a ?w1b) (restore_instances s ds)))"
    proof (rule roster_ok_and_then)
      show "roster_ok (outcome (run_monitor a ?w1b))"
        by (rule roster_ok_kept [OF ok1 k])
    next
      fix w2
      assume r: "run_monitor a ?w1b = Inr w2" and ok2: "roster_ok w2"
      have "kept w1 w2" using k r by simp
      then have "set (instance_numbers s w2) \<subseteq> insert ?n (set (instance_numbers s w))"
        using kept_numbers [of w1 w2 s] set1 by simp
      then have "set (map data_instance_number ds) \<inter> set (instance_numbers s w2) = {}"
        using n_ds disj by blast
      then show "roster_ok (outcome (restore_instances s ds w2))"
        by (rule Cons.IH [OF ok2 dist])
    qed
    then show ?thesis by (simp add: Some c)
  qed
qed

lemma roster_ok_restore:
  assumes ok: "roster_ok w" and empty: "instances (service_heap w s) = []"
    and dist: "distinct (map data_instance_number (data_instances d))"
  shows "roster_ok (outcome (restore s d w))"
proof (cases "named_event_by_name (data_state d)")
  case None
  then show ?thesis using ok by (simp add: restore_def)
next
  case (Some st)
  show ?thesis
  proof (cases "machine (service_heap w s)")
    case None
    then show ?thesis using ok by (simp add: restore_def Some)
  next
    case (Some st0)
    let ?w1 = "update_service s (\<lambda>v. v\<lparr>machine := Some st\<rparr>) w"
    have ok1: "roster_ok ?w1"
      by (rule roster_ok_kept [OF ok]) (intro kept_intros, simp_all)
    have e1: "instance_numbers s ?w1 = []"
      by (simp add: instance_numbers_def empty)
    have "roster_ok (outcome (and_then (restore_instances s (data_instances d) ?w1)
                       (\<lambda>w2. Inr (sort_instances s w2))))"
    proof (rule roster_ok_and_then)
      show "roster_ok (outcome (restore_instances s (data_instances d) ?w1))"
        by (rule roster_ok_restore_instances [OF ok1 dist]) (simp add: e1)
    next
      fix w2 assume "roster_ok w2"
      then show "roster_ok (outcome (Inr (sort_instances s w2)))"
        by (simp add: roster_ok_sort_instances)
    qed
    then show ?thesis
      using ok1 by (auto simp: restore_def \<open>named_event_by_name (data_state d) = Some st\<close> Some Let_def)
  qed
qed

lemma kept_inherit_instances:
  "kept w0 w \<Longrightarrow> kept w0 (outcome (inherit_instances s rb rm as w))"
proof (induction as arbitrary: w rm rb)
  case Nil
  then show ?case by simp
next
  case (Cons a as)
  show ?case
    using Cons.prems
    by (auto simp: Let_def split: option.splits intro!: kept_intros Cons.IH)
qed

lemma kept_rebalance:
  "kept w0 w \<Longrightarrow> kept w0 (outcome_snd (rebalance s opt as cnt rem w))"
proof (induction as arbitrary: w cnt rem)
  case Nil
  then show ?case by simp
next
  case (Cons a as)
  show ?case
    using Cons.prems
    by (auto simp: Let_def split: option.splits intro!: kept_and_then_snd kept_intros Cons.IH)
qed

lemma roster_ok_rebalance:
  "roster_ok w \<Longrightarrow> roster_ok (outcome_snd (rebalance s opt as cnt rem w))"
  by (erule roster_ok_kept) (rule kept_rebalance, simp)

lemma roster_ok_stop_each:
  "roster_ok w \<Longrightarrow> roster_ok (outcome (stop_each as w))"
  by (erule roster_ok_kept) (rule kept_stop_each, simp)

lemma roster_ok_emptied:
  "roster_ok w \<Longrightarrow> roster_ok (update_service prev (\<lambda>v. v\<lparr>instances := []\<rparr>) w)"
  by (erule roster_ok_kept) (rule kept_update_service [where Q = "\<lambda>_. False"], simp_all)

lemma roster_ok_merged:
  assumes ok: "roster_ok w" and empty: "instances (service_heap w s) = []"
  shows "roster_ok (update_service s
           (\<lambda>v. v\<lparr>instances := instances v @ instances (service_heap w prev)\<rparr>) w)"
  using ok unfolding roster_ok_def instance_numbers_def
  by (auto simp: empty)

lemma roster_ok_absorb_previous:
  assumes ok: "roster_ok w" and empty: "instances (service_heap w s) = []"
  shows "roster_ok (outcome (absorb_previous s prev w))"
proof -
  let ?w2 = "update_service prev (\<lambda>v. v\<lparr>machine := None\<rparr>)
               (update_service s (\<lambda>v. v\<lparr>machine := machine (service_heap w prev)\<rparr>) w)"
  have ok2: "roster_ok ?w2"
    by (rule roster_ok_kept [OF ok]) (intro kept_intros, simp_all)
  have empty2: "instances (service_heap ?w2 s) = []"
    using empty by auto
  note ok3 = roster_ok_merged [OF ok2 empty2, of prev]
  show ?thesis
    unfolding absorb_previous_def Let_def
    apply (rule roster_ok_and_then)
     apply (rule roster_ok_kept [OF ok3])
     apply (rule kept_inherit_instances)
     apply (rule kept_refl)
    apply (rule roster_ok_and_then_snd)
     apply (auto intro!: roster_ok_rebalance roster_ok_sort_instances roster_ok_emptied)[1]
    apply (simp only: prod.case)
    apply (rule roster_ok_and_then)
     apply (auto intro!: roster_ok_stop_each)[1]
    apply (erule roster_ok_fill_instances)
    done
qed

lemma data_numbers:
  "data s0 w0 = Inr d \<Longrightarrow> map data_instance_number (data_instances d) = instance_numbers s0 w0"
  by (auto simp: data_def instance_numbers_def split: option.splits)

lemma reachable_roster_ok: "reachable w \<Longrightarrow> roster_ok w"
proof (induction rule: reachable.induct)
  case (initial w)
  then show ?case by (simp add: roster_ok_def instance_numbers_def)
next
  case (configure w f s)
  show ?case
    by (rule roster_ok_kept [OF configure.IH]) (intro kept_intros, simp_all add: configure.hyps)
next
  case (executor w f a)
  show ?case
    by (rule roster_ok_kept [OF executor.IH]) (intro kept_intros, simp_all add: executor.hyps)
next
  case (service_start w s)
  then show ?case by (simp add: roster_ok_service_start)
next
  case (service_stop w s)
  show ?case by (rule roster_ok_kept [OF service_stop.IH]) (intro kept_intros, simp)
next
  case (restart_after_failure w s)
  then show ?case by (simp add: roster_ok_restart_after_failure)
next
  case (build_instance w s)
  then show ?case by (simp add: roster_ok_build_instance)
next
  case (instance_start w a)
  show ?case by (rule roster_ok_kept [OF instance_start.IH]) (intro kept_intros, simp)
next
  case (instance_stop w a)
  show ?case by (rule roster_ok_kept [OF instance_stop.IH]) (intro kept_intros, simp)
next
  case (run_monitor w a)
  show ?case by (rule roster_ok_kept [OF run_monitor.IH]) (intro kept_intros, simp)
next
  case (monitor_complete_callback w a)
  show ?case by (rule roster_ok_kept [OF monitor_complete_callback.IH]) (intro kept_intros, simp)
next
  case (monitor_complete_failstart w a)
  show ?case by (rule roster_ok_kept [OF monitor_complete_failstart.IH]) (intro kept_intros, simp)
next
  case (start_complete_callback w a)
  show ?case by (rule roster_ok_kept [OF start_complete_callback.IH]) (intro kept_intros, simp)
next
  case (start_complete_failstart w a)
  show ?case by (rule roster_ok_kept [OF start_complete_failstart.IH]) (intro kept_intros, simp)
next
  case (stop_complete_callback w a)
  show ?case by (rule roster_ok_kept [OF stop_complete_callback.IH]) (intro kept_intros, simp)
next
  case (stop_complete_failstart w a)
  show ?case by (rule roster_ok_kept [OF stop_complete_failstart.IH]) (intro kept_intros, simp)
next
  case (kill_instance w a)
  show ?case by (rule roster_ok_kept [OF kill_instance.IH]) (intro kept_intros, simp)
next
  case (instance_change w s)
  show ?case by (rule roster_ok_kept [OF instance_change.IH]) (intro kept_intros, simp)
next
  case (restore w s w0 s0 d)
  have "distinct (map data_instance_number (data_instances d))"
    using restore.IH(2) data_numbers [OF restore.hyps(4)] by (simp add: roster_ok_def)
  then show ?case
    by (rule roster_ok_restore [OF restore.IH(1) restore.hyps(2)])
next
  case (absorb_previous w s prev)
  show ?case
    by (rule roster_ok_absorb_previous [OF absorb_previous.IH absorb_previous.hyps(2)])
qed

text \<open>
  Claim C6, as the code has it. In every reachable world the instance numbers of each
  roster are pairwise distinct. \<open>build_instance\<close> finds no number exactly when every
  number of \<open>[0, count)\<close> is held by an instance of the roster, and then returns no
  instance, logs the error and leaves the roster as it is. Otherwise the new instance
  gets the lowest number of \<open>[0, count)\<close> that no instance of the roster holds; the
  roster's numbers afterwards are among the old ones and the new one, and stay pairwise
  distinct, and within \<open>[0, count)\<close> if they were.
\<close>

theorem instance_numbers_distinct_and_allocated:
  "(reachable w \<longrightarrow>
      distinct (instance_numbers s w)
      \<and> (\<forall>a\<in>set (instances (service_heap w s)). a < next_instance w))
   \<and> ((\<forall>a\<in>set (instances (service_heap w s)). a < next_instance w) \<longrightarrow>
      (find_unused_instance_number s w = None \<longleftrightarrow>
            (\<forall>k. 0 \<le> k \<and> k < count (service_heap w s) \<longrightarrow> k \<in> set (instance_numbers s w)))
    \<and> (find_unused_instance_number s w = None \<longrightarrow>
          (\<exists>w'. build_instance s w = Inr (None, w')
             \<and> instances (service_heap w' s) = instances (service_heap w s)
             \<and> log w' = log w @ [Cannot_build_instance]))
    \<and> (\<forall>n r w'. find_unused_instance_number s w = Some n \<and> build_instance s w = Inr (r, w') \<longrightarrow>
          r = Some (next_instance w)
          \<and> instance_number (instance_heap w' (next_instance w)) = n
          \<and> 0 \<le> n \<and> n < count (service_heap w s) \<and> n \<notin> set (instance_numbers s w)
          \<and> (\<forall>k. 0 \<le> k \<and> k < n \<longrightarrow> k \<in> set (instance_numbers s w))
          \<and> set (instance_numbers s w') \<subseteq> insert n (set (instance_numbers s w))
          \<and> (distinct (instance_numbers s w) \<longrightarrow> distinct (instance_numbers s w'))
          \<and> ((\<forall>k\<in>set (instance_numbers s w). 0 \<le> k \<and> k < count (service_heap w s)) \<longrightarrow>
               (\<forall>k\<in>set (instance_numbers s w'). 0 \<le> k \<and> k < count (service_heap w' s)))))"
proof (rule conjI)
  show "reachable w \<longrightarrow>
      distinct (instance_numbers s w)
      \<and> (\<forall>a\<in>set (instances (service_heap w s)). a < next_instance w)"
  proof
    assume "reachable w"
    then have "roster_ok w" by (rule reachable_roster_ok)
    then show "distinct (instance_numbers s w)
      \<and> (\<forall>a\<in>set (instances (service_heap w s)). a < next_instance w)"
      unfolding roster_ok_def by blast
  qed
next
  show "(\<forall>a\<in>set (instances (service_heap w s)). a < next_instance w) \<longrightarrow>
      (find_unused_instance_number s w = None \<longleftrightarrow>
            (\<forall>k. 0 \<le> k \<and> k < count (service_heap w s) \<longrightarrow> k \<in> set (instance_numbers s w)))
    \<and> (find_unused_instance_number s w = None \<longrightarrow>
          (\<exists>w'. build_instance s w = Inr (None, w')
             \<and> instances (service_heap w' s) = instances (service_heap w s)
             \<and> log w' = log w @ [Cannot_build_instance]))
    \<and> (\<forall>n r w'. find_unused_instance_number s w = Some n \<and> build_instance s w = Inr (r, w') \<longrightarrow>
          r = Some (next_instance w)
          \<and> instance_number (instance_heap w' (next_instance w)) = n
          \<and> 0 \<le> n \<and> n < count (service_heap w s) \<and> n \<notin> set (instance_numbers s w)
          \<and> (\<forall>k. 0 \<le> k \<and> k < n \<longrightarrow> k \<in> set (instance_numbers s w))
          \<and> set (instance_numbers s w') \<subseteq> insert n (set (instance_numbers s w))
          \<and> (distinct (instance_numbers s w) \<longrightarrow> distinct (instance_numbers s w'))
          \<and> ((\<forall>k\<in>set (instance_numbers s w). 0 \<le> k \<and> k < count (service_heap w s)) \<longrightarrow>
               (\<forall>k\<in>set (instance_numbers s w'). 0 \<le> k \<and> k < count (service_heap w' s))))"
    by (rule impI) (rule build_instance_allocates)
qed

theorem instance_numbers_distinct_and_allocated_witness:
  "instance_numbers 1 started_world = [0, 1]
   \<and> distinct (instance_numbers 1 started_world)
   \<and> find_unused_instance_number 1 shrunk_world = Some 1
   \<and> (\<exists>w'. build_instance 1 shrunk_world = Inr (Some 3, w')
         \<and> instance_number (instance_heap w' 3) = 1
         \<and> distinct (instance_numbers 1 w')
         \<and> list_all (\<lambda>k. 0 \<le> k \<and> k < 3) (instance_numbers 1 w'))"
proof -
  have "reachable (deployment (web_service ''serve'' 2) (web_service ''serve'' 2))"
    by (rule reachable.initial) (simp add: deployment_defs)
  then have re: "reachable started_world"
    unfolding started_world_def by (rule reachable.service_start)
  have d: "distinct (instance_numbers 1 started_world)"
    using instance_numbers_distinct_and_allocated [of started_world 1] re by blast
  have wf: "\<forall>a\<in>set (instances (service_heap shrunk_world 1)). a < next_instance shrunk_world"
    by (simp add: shrunk_world_def deployment_defs)
  obtain r w' where b: "build_instance 1 shrunk_world = Inr (r, w')"
    using shrunk_build_returns
    by (cases "build_instance 1 shrunk_world") (auto simp: returned_def)
  have nums: "instance_numbers 1 shrunk_world = [0, 2]" "next_instance shrunk_world = 3"
    "count (service_heap shrunk_world 1) = 3"
    by (simp_all add: instance_numbers_def shrunk_world_def deployment_defs)
  have c: "count (service_heap w' 1) = 3"
    using build_instance_Some [OF b shrunk_find_unused] nums by simp
  from instance_numbers_distinct_and_allocated [of shrunk_world 1] wf shrunk_find_unused b
  have "r = Some (next_instance shrunk_world)
          \<and> instance_number (instance_heap w' (next_instance shrunk_world)) = 1
          \<and> (distinct (instance_numbers 1 shrunk_world) \<longrightarrow> distinct (instance_numbers 1 w'))
          \<and> ((\<forall>k\<in>set (instance_numbers 1 shrunk_world).
                 0 \<le> k \<and> k < count (service_heap shrunk_world 1)) \<longrightarrow>
               (\<forall>k\<in>set (instance_numbers 1 w'). 0 \<le> k \<and> k < count (service_heap w' 1)))"
    by blast
  then have "r = Some 3 \<and> instance_number (instance_heap w' 3) = 1
      \<and> distinct (instance_numbers 1 w')
      \<and> (\<forall>k\<in>set (instance_numbers 1 w'). 0 \<le> k \<and> k < 3)"
    unfolding nums c by simp
  then show ?thesis
    using b shrunk_find_unused d started_world_numbers by (auto simp: list_all_iff)
qed

lemma instance_change_machine:
  assumes "instance_change s w = Inr w'" and m: "machine (service_heap w s) = Some st"
  shows "machine (service_heap w' s) = Some (aggregate_state s st w)"
  using assms(1) unfolding instance_change_result [OF m] aggregate_state_def live_instances_def
  by auto

lemma aggregate_state_failed: "aggregate_state s Svc_failed w = Svc_failed"
  by (simp add: aggregate_state_def aggregate_events_def fire_def)

lemma aggregate_state_degraded:
  assumes "a \<in> set (live_instances s w)" and "state (instance_heap w a) = Inst_starting"
  shows "aggregate_state s Svc_degraded w = Svc_degraded"
proof -
  let ?l = "map (\<lambda>a. state (instance_heap w a)) (live_instances s w)"
  have st: "Inst_starting \<in> set ?l"
    using assms by force
  then have "?l \<noteq> []" by auto
  moreover have "\<not> list_all (\<lambda>x. x = Inst_failed) ?l"
  proof
    assume "list_all (\<lambda>x. x = Inst_failed) ?l"
    with st have "Inst_starting = Inst_failed" unfolding list_all_iff by blast
    then show False by simp
  qed
  moreover have "\<not> list_all (\<lambda>x. x = Inst_up) ?l"
  proof
    assume "list_all (\<lambda>x. x = Inst_up) ?l"
    with st have "Inst_starting = Inst_up" unfolding list_all_iff by blast
    then show False by simp
  qed
  ultimately show ?thesis
    by (simp add: aggregate_state_def aggregate_events_def fire_def)
qed

lemma instance_command_Inr:
  assumes "instance_command a w = Inr (c, w2)"
  shows "instance_heap w2 = instance_heap w" and "service_heap w2 = service_heap w"
    and "c = None \<Longrightarrow>
           (\<exists>t. command (service_of w a) = Some t \<and> render (service_of w a) t (instance_heap w a) = None)"
  using assms by (auto simp: instance_command_def split: option.splits)

text \<open>What \<open>start\<close> does to the machine of the service that listens to the instance.\<close>

lemma start_machine:
  assumes r: "start a w = Inr w'"
    and l: "listeners (instance_heap w a) = [s]"
    and o: "service (instance_heap w a) = s"
    and m: "machine (service_heap w s) = Some st"
  shows "command (service_heap w' s) = command (service_heap w s)
    \<and> render (service_heap w' s) = render (service_heap w s)
    \<and> ((\<exists>t. command (service_heap w s) = Some t
            \<and> render (service_heap w s) t
                 ((instance_heap w a)\<lparr>state := Inst_starting\<rparr>) = None
            \<and> (\<exists>w3. machine (service_heap w' s)
                   = Some (aggregate_state s
                            (aggregate_state s st (update_instance a (\<lambda>i. i\<lparr>state := Inst_starting\<rparr>) w))
                            w3)))
    \<or> machine (service_heap w' s)
         = Some (aggregate_state s st (update_instance a (\<lambda>i. i\<lparr>state := Inst_starting\<rparr>) w)))"
proof -
  let ?wS = "update_instance a (\<lambda>i. i\<lparr>state := Inst_starting\<rparr>) w"
  have d: "state (instance_heap w a) = Inst_down"
    using r by (auto simp: start_def split: if_splits)
  obtain w1 where w1: "instance_transition a Start w = Inr w1"
    and rest: "and_then (instance_command a w1)
          (\<lambda>(c, w2). case c of
                  None \<Rightarrow> start_complete_failstart a w2
                | Some cmd \<Rightarrow>
                    (let act = new_action a Start_action cmd w2
                     in Inr (node_run a act
                               (update_instance a (\<lambda>i. i\<lparr>start_action := Some act\<rparr>) w2)))) = Inr w'"
    using r d by (auto simp: start_def and_then_eq_Inr)
  have c1: "instance_change s ?wS = Inr w1"
    using w1 by (auto simp: instance_transition_def d l and_then_eq_Inr)
  have mS: "machine (service_heap ?wS s) = Some st"
    using m by simp
  have m1: "machine (service_heap w1 s) = Some (aggregate_state s st ?wS)"
    by (rule instance_change_machine [OF c1 mS])
  note f1 = instance_change_Inr [OF c1]
  obtain c w2 where ic: "instance_command a w1 = Inr (c, w2)"
    and k: "(case c of
                  None \<Rightarrow> start_complete_failstart a w2
                | Some cmd \<Rightarrow>
                    (let act = new_action a Start_action cmd w2
                     in Inr (node_run a act
                               (update_instance a (\<lambda>i. i\<lparr>start_action := Some act\<rparr>) w2)))) = Inr w'"
    using rest by (auto simp: and_then_eq_Inr)
  note i2 = instance_command_Inr [OF ic]
  have h1: "instance_heap w1 a = (instance_heap w a)\<lparr>state := Inst_starting\<rparr>"
    using f1(1) by simp
  have so: "service_of w1 a = service_heap w1 s"
    by (simp add: service_of_def h1 o)
  show ?thesis
  proof (cases c)
    case None
    let ?w3 = "write_log Failed_to_start w2"
    let ?wF = "update_instance a (\<lambda>i. i\<lparr>state := Inst_failed\<rparr>) ?w3"
    obtain w4 where w4: "instance_transition a Down ?w3 = Inr w4"
      and e: "w' = update_instance a (\<lambda>i. i\<lparr>start_action := None\<rparr>) w4"
      using k None by (auto simp: start_complete_failstart_def and_then_eq_Inr)
    have c4: "instance_change s ?wF = Inr w4"
      using w4 by (auto simp: instance_transition_def i2 h1 l and_then_eq_Inr)
    have mF: "machine (service_heap ?wF s) = Some (aggregate_state s st ?wS)"
      using m1 by (simp add: i2)
    have m4: "machine (service_heap w4 s) = Some (aggregate_state s (aggregate_state s st ?wS) ?wF)"
      by (rule instance_change_machine [OF c4 mF])
    obtain t where "command (service_of w1 a) = Some t"
      "render (service_of w1 a) t (instance_heap w1 a) = None"
      using i2(3) None by blast
    then have "command (service_heap w s) = Some t"
      "render (service_heap w s) t ((instance_heap w a)\<lparr>state := Inst_starting\<rparr>) = None"
      using f1(7) f1(8) by (simp_all add: so h1)
    moreover note f4 = instance_change_Inr [OF c4]
    have "command (service_heap w' s) = command (service_heap w s)"
      "render (service_heap w' s) = render (service_heap w s)"
      using f4(7) f4(8) f1(7) f1(8) by (simp_all add: e i2)
    ultimately show ?thesis
      using m4 by (auto simp: e)
  next
    case (Some cmd)
    have e: "w' = node_run a (new_action a Start_action cmd w2)
                   (update_instance a (\<lambda>i. i\<lparr>start_action := Some (new_action a Start_action cmd w2)\<rparr>) w2)"
      using k Some by (simp add: Let_def)
    show ?thesis
      using m1 f1(7) f1(8) by (simp add: e i2)
  qed
qed


lemma build_instance_start:
  assumes b: "build_instance s w = Inr (r, w')"
    and f: "find_unused_instance_number s w = Some n"
  shows "\<exists>w2. start (next_instance w) w2 = Inr w'
     \<and> listeners (instance_heap w2 (next_instance w)) = [s]
     \<and> service (instance_heap w2 (next_instance w)) = s
     \<and> state (instance_heap w2 (next_instance w)) = Inst_down
     \<and> next_instance w \<in> set (instances (service_heap w2 s))
     \<and> machine (service_heap w2 s) = machine (service_heap w s)
     \<and> command (service_heap w2 s) = command (service_heap w s)
     \<and> render (service_heap w2 s) = render (service_heap w s)
     \<and> count (service_heap w2 s) = count (service_heap w s)"
proof -
  obtain nd w1 where n: "next_round_robin (node_pool (service_heap w s)) w = (nd, w1)"
    by (cases "next_round_robin (node_pool (service_heap w s)) w")
  have w1: "w1 = snd (next_round_robin (node_pool (service_heap w s)) w)"
    by (simp add: n)
  have "find_unused_instance_number s w1 = find_unused_instance_number s w"
    unfolding w1 by (rule find_unused_cong) simp_all
  then have f1: "find_unused_instance_number s w1 = Some n"
    using f by simp
  obtain a w2 where c: "create_instance s nd n w1 = (a, w2)"
    by (cases "create_instance s nd n w1")
  have ih1: "instance_heap w1 = instance_heap w" and sh1: "service_heap w1 = service_heap w"
    and nx1: "next_instance w1 = next_instance w"
    by (simp_all add: w1)
  note cf = create_instance_fields [OF c, unfolded ih1 sh1 nx1]
  have e: "and_then (start a w2) (\<lambda>w3. Inr (Some a, w3)) = Inr (r, w')"
    using b by (simp add: build_instance_def n f1 c)
  have st: "start a w2 = Inr w'"
    using e by (cases "start a w2") auto
  have a: "a = next_instance w"
    using cf by simp
  have "start (next_instance w) w2 = Inr w'
     \<and> listeners (instance_heap w2 (next_instance w)) = [s]
     \<and> service (instance_heap w2 (next_instance w)) = s
     \<and> state (instance_heap w2 (next_instance w)) = Inst_down
     \<and> next_instance w \<in> set (instances (service_heap w2 s))
     \<and> machine (service_heap w2 s) = machine (service_heap w s)
     \<and> command (service_heap w2 s) = command (service_heap w s)
     \<and> render (service_heap w2 s) = render (service_heap w s)
     \<and> count (service_heap w2 s) = count (service_heap w s)"
    using cf st by (simp add: a)
  then show ?thesis by blast
qed

lemma build_instance_machine:
  assumes b: "build_instance s w = Inr (r, w')"
  shows "command (service_heap w' s) = command (service_heap w s)
    \<and> render (service_heap w' s) = render (service_heap w s)
    \<and> count (service_heap w' s) = count (service_heap w s)
    \<and> (machine (service_heap w s) = Some Svc_failed \<longrightarrow>
          machine (service_heap w' s) = Some Svc_failed)
    \<and> (machine (service_heap w s) = Some Svc_degraded
          \<and> (\<exists>t. command (service_heap w s) = Some t \<and> (\<forall>i. render (service_heap w s) t i \<noteq> None))
        \<longrightarrow> machine (service_heap w' s) = Some Svc_degraded)"
proof (cases "find_unused_instance_number s w")
  case None
  have "w' = write_log Cannot_build_instance (snd (next_round_robin (node_pool (service_heap w s)) w))"
    using build_instance_None [OF b None] by simp
  then show ?thesis by simp
next
  case (Some n)
  let ?a = "next_instance w"
  obtain w2 where st: "start ?a w2 = Inr w'"
    and l: "listeners (instance_heap w2 ?a) = [s]"
    and o: "service (instance_heap w2 ?a) = s"
    and mem: "?a \<in> set (instances (service_heap w2 s))"
    and m2: "machine (service_heap w2 s) = machine (service_heap w s)"
    and c2: "command (service_heap w2 s) = command (service_heap w s)"
    and r2: "render (service_heap w2 s) = render (service_heap w s)"
    using build_instance_start [OF b Some] by blast
  let ?wS = "update_instance ?a (\<lambda>i. i\<lparr>state := Inst_starting\<rparr>) w2"
  have cnt: "count (service_heap w' s) = count (service_heap w s)"
    using build_instance_Some [OF b Some] by simp
  have keep: "command (service_heap w' s) = command (service_heap w s)"
    "render (service_heap w' s) = render (service_heap w s)"
  proof -
    obtain st0 where "machine (service_heap w2 s) = Some st0"
      using start_Inr [OF st l o] st
      by (cases "machine (service_heap w2 s)")
         (auto simp: start_def instance_transition_def l and_then_eq_Inr
            dest!: instance_change_Inr(16) split: if_splits)
    from start_machine [OF st l o this]
    show "command (service_heap w' s) = command (service_heap w s)"
      "render (service_heap w' s) = render (service_heap w s)"
      by (simp_all add: c2 r2)
  qed
  have failed: "machine (service_heap w' s) = Some Svc_failed"
    if "machine (service_heap w s) = Some Svc_failed"
  proof -
    have "machine (service_heap w2 s) = Some Svc_failed"
      using that by (simp add: m2)
    from start_machine [OF st l o this] show ?thesis
      by (auto simp: aggregate_state_failed)
  qed
  have degraded: "machine (service_heap w' s) = Some Svc_degraded"
    if d: "machine (service_heap w s) = Some Svc_degraded"
      and c: "command (service_heap w s) = Some t" and rn: "\<forall>i. render (service_heap w s) t i \<noteq> None"
    for t
  proof -
    have md: "machine (service_heap w2 s) = Some Svc_degraded"
      using d by (simp add: m2)
    have live: "?a \<in> set (live_instances s ?wS)"
      using mem by (simp add: live_instances_def)
    have agg: "aggregate_state s Svc_degraded ?wS = Svc_degraded"
      by (rule aggregate_state_degraded [OF live]) simp
    from start_machine [OF st l o md] show ?thesis
      using c rn by (auto simp: c2 r2 agg)
  qed
  show ?thesis
    using keep cnt failed degraded by blast
qed


lemma build_instances_machine:
  "build_instances k s w = Inr w' \<Longrightarrow>
     (machine (service_heap w s) = Some Svc_failed \<longrightarrow>
        machine (service_heap w' s) = Some Svc_failed)
     \<and> (machine (service_heap w s) = Some Svc_degraded
          \<and> (\<exists>t. command (service_heap w s) = Some t \<and> (\<forall>i. render (service_heap w s) t i \<noteq> None))
        \<longrightarrow> machine (service_heap w' s) = Some Svc_degraded)"
proof (induction k arbitrary: w)
  case 0
  then show ?case by simp
next
  case (Suc k)
  obtain r w1 where b: "build_instance s w = Inr (r, w1)" and rest: "build_instances k s w1 = Inr w'"
    using Suc.prems by (auto simp: and_then_eq_Inr)
  note bm = build_instance_machine [OF b]
  note ih = Suc.IH [OF rest]
  show ?case
    using bm ih by simp
qed

text \<open>
  Claim C10, as the code has it. The service table accepts \<open>start\<close> in \<open>failed\<close> and
  goes to \<open>starting\<close>, so \<open>start()\<close>, and with it the restart after a failure, takes a
  failed service to \<open>starting\<close>. In \<open>degraded\<close> the table has no \<open>start\<close>: a restart
  pass in which the command of every new instance renders leaves the machine in
  \<open>degraded\<close>, from where \<open>all_up\<close> leads to \<open>up\<close>.
\<close>

theorem start_recovers_failed_not_degraded:
  "service_table Svc_failed Start = Some Svc_starting
   \<and> service_table Svc_degraded Start = None
   \<and> service_table Svc_degraded All_up = Some Svc_up
   \<and> (\<forall>w'. machine (service_heap w s) = Some Svc_failed \<and> service_start s w = Inr w' \<longrightarrow>
          machine (service_heap w' s) = Some Svc_starting)
   \<and> (restart_timer (service_heap w s) \<noteq> None
        \<and> (machine (service_heap w s) = Some Svc_failed
            \<or> machine (service_heap w s) = Some Svc_degraded) \<longrightarrow>
          restart_after_failure s w = service_start s (write_log Restarting_failed_instances w))
   \<and> (\<forall>w' t. machine (service_heap w s) = Some Svc_degraded
          \<and> command (service_heap w s) = Some t \<and> (\<forall>i. render (service_heap w s) t i \<noteq> None)
          \<and> service_start s w = Inr w' \<longrightarrow>
          machine (service_heap w' s) = Some Svc_degraded)"
proof -
  let ?w2 = "clear_failed_instances s (update_service s (\<lambda>v. v\<lparr>restart_timer := None\<rparr>) w)"
  have same: "machine (service_heap ?w2 s) = machine (service_heap w s)"
    "command (service_heap ?w2 s) = command (service_heap w s)"
    "render (service_heap ?w2 s) = render (service_heap w s)"
    by (simp_all add: clear_failed_instances_def)
  have pass: "\<exists>w3. service_transition s Start w3 = Inr w'
      \<and> (machine (service_heap w s) = Some Svc_failed \<longrightarrow>
            machine (service_heap w3 s) = Some Svc_failed)
      \<and> (machine (service_heap w s) = Some Svc_degraded
            \<and> (\<exists>t. command (service_heap w s) = Some t \<and> (\<forall>i. render (service_heap w s) t i \<noteq> None))
          \<longrightarrow> machine (service_heap w3 s) = Some Svc_degraded)"
    if r: "service_start s w = Inr w'" for w'
  proof -
    obtain w3 where
      b: "(if count (service_heap ?w2 s) - int (length (instances (service_heap ?w2 s))) > 0
           then build_instances
                  (nat (count (service_heap ?w2 s) - int (length (instances (service_heap ?w2 s)))))
                  s ?w2
           else Inr ?w2) = Inr w3"
      and t: "service_transition s Start w3 = Inr w'"
      using r by (auto simp: service_start_def Let_def and_then_eq_Inr)
    show ?thesis
    proof (cases "count (service_heap ?w2 s) - int (length (instances (service_heap ?w2 s))) > 0")
      case True
      then have "build_instances
                  (nat (count (service_heap ?w2 s) - int (length (instances (service_heap ?w2 s)))))
                  s ?w2 = Inr w3"
        using b by simp
      from build_instances_machine [OF this] t show ?thesis
        unfolding same by blast
    next
      case False
      then have "w3 = ?w2" using b by simp
      then show ?thesis using t same by auto
    qed
  qed
  have f: "machine (service_heap w' s) = Some Svc_starting"
    if mf: "machine (service_heap w s) = Some Svc_failed" and ss: "service_start s w = Inr w'" for w'
  proof -
    obtain w3 where t: "service_transition s Start w3 = Inr w'"
      and m: "machine (service_heap w3 s) = Some Svc_failed"
      using pass [OF ss] mf by blast
    show ?thesis
      using t by (auto simp: service_transition_fire [OF m] fire_def)
  qed
  have d: "machine (service_heap w' s) = Some Svc_degraded"
    if md: "machine (service_heap w s) = Some Svc_degraded" and c: "command (service_heap w s) = Some t"
      and rn: "\<forall>i. render (service_heap w s) t i \<noteq> None" and ss: "service_start s w = Inr w'"
    for w' t
  proof -
    obtain w3 where t: "service_transition s Start w3 = Inr w'"
      and m: "machine (service_heap w3 s) = Some Svc_degraded"
      using pass [OF ss] md c rn by blast
    show ?thesis
      using t by (auto simp: service_transition_fire [OF m] fire_def)
  qed
  have ra: "restart_after_failure s w = service_start s (write_log Restarting_failed_instances w)"
    if "restart_timer (service_heap w s) \<noteq> None"
      "machine (service_heap w s) = Some Svc_failed \<or> machine (service_heap w s) = Some Svc_degraded"
    using that by (auto simp: restart_after_failure_def)
  show ?thesis
  proof (intro conjI allI impI)
    show "service_table Svc_failed Start = Some Svc_starting" by simp
    show "service_table Svc_degraded Start = None" by simp
    show "service_table Svc_degraded All_up = Some Svc_up" by simp
  next
    fix w'
    assume "machine (service_heap w s) = Some Svc_failed \<and> service_start s w = Inr w'"
    then show "machine (service_heap w' s) = Some Svc_starting"
      using f by blast
  next
    assume "restart_timer (service_heap w s) \<noteq> None
        \<and> (machine (service_heap w s) = Some Svc_failed
            \<or> machine (service_heap w s) = Some Svc_degraded)"
    then show "restart_after_failure s w = service_start s (write_log Restarting_failed_instances w)"
      using ra by blast
  next
    fix w' t
    assume "machine (service_heap w s) = Some Svc_degraded
          \<and> command (service_heap w s) = Some t \<and> (\<forall>i. render (service_heap w s) t i \<noteq> None)
          \<and> service_start s w = Inr w'"
    then show "machine (service_heap w' s) = Some Svc_degraded"
      using d by blast
  qed
qed

lemma shrunk_world_clear:
  "instances (service_heap (clear_failed_instances 1
      (update_service 1 (\<lambda>v. v\<lparr>restart_timer := None\<rparr>) shrunk_world)) 1) = [0, 2]"
  by (simp add: clear_failed_instances_def shrunk_world_def deployment_defs)

lemma shrunk_world_start_returns:
  "returned (service_start 1 shrunk_world) \<noteq> None"
proof -
  have n: "nat 1 = Suc 0" by simp
  show ?thesis
    unfolding service_start_def Let_def shrunk_world_clear
    by (simp add: n returned_def clear_failed_instances_def
        shrunk_world_def service_model_defs deployment_defs)
qed


lemma all_failed_world_fields:
  "machine (service_heap all_failed_world 1) = Some Svc_failed"
  "restart_timer (service_heap all_failed_world 1) \<noteq> None"
  by (simp_all add: all_failed_world_def scenario_b_def service_model_defs deployment_defs)

lemma all_failed_world_start_returns:
  "returned (service_start 1 (write_log Restarting_failed_instances all_failed_world)) \<noteq> None"
proof -
  have n: "nat 1 = Suc 0" by simp
  have c: "instances (service_heap (clear_failed_instances 1
      (update_service 1 (\<lambda>v. v\<lparr>restart_timer := None\<rparr>)
         (write_log Restarting_failed_instances all_failed_world))) 1) = []"
    by (simp add: clear_failed_instances_def all_failed_world_def scenario_b_def
        service_model_defs deployment_defs)
  show ?thesis
    unfolding service_start_def Let_def c
    by (simp add: n returned_def clear_failed_instances_def all_failed_world_def scenario_b_def
        service_model_defs deployment_defs)
qed

theorem start_recovers_failed_not_degraded_witness:
  "(\<exists>w'. restart_after_failure 1 all_failed_world = Inr w'
        \<and> machine (service_heap w' 1) = Some Svc_starting)
   \<and> (\<exists>w'. service_start 1 shrunk_world = Inr w'
        \<and> machine (service_heap w' 1) = Some Svc_degraded)"
proof -
  note t1 = start_recovers_failed_not_degraded [of all_failed_world 1]
  note t2 = start_recovers_failed_not_degraded [of "write_log Restarting_failed_instances all_failed_world" 1]
  note t3 = start_recovers_failed_not_degraded [of shrunk_world 1]
  have ra: "restart_after_failure 1 all_failed_world
              = service_start 1 (write_log Restarting_failed_instances all_failed_world)"
    using t1 all_failed_world_fields by blast
  obtain w1 where s1: "service_start 1 (write_log Restarting_failed_instances all_failed_world) = Inr w1"
    using all_failed_world_start_returns
    by (cases "service_start 1 (write_log Restarting_failed_instances all_failed_world)")
       (auto simp: returned_def)
  have m1: "machine (service_heap (write_log Restarting_failed_instances all_failed_world) 1)
              = Some Svc_failed"
    using all_failed_world_fields(1) by simp
  have a: "machine (service_heap w1 1) = Some Svc_starting"
    using t2 m1 s1 by blast
  obtain w2 where s2: "service_start 1 shrunk_world = Inr w2"
    using shrunk_world_start_returns
    by (cases "service_start 1 shrunk_world") (auto simp: returned_def)
  have d: "machine (service_heap shrunk_world 1) = Some Svc_degraded"
    "command (service_heap shrunk_world 1) = Some ''serve''"
    "\<forall>i. render (service_heap shrunk_world 1) ''serve'' i \<noteq> None"
    by (simp_all add: shrunk_world_def deployment_defs)
  have b: "machine (service_heap w2 1) = Some Svc_degraded"
    using t3 d s2 by blast
  show ?thesis
    using ra s1 a s2 b by simp
qed

text \<open>
  A degraded service with an empty roster whose command does not render: the restart
  pass builds an instance, the failed render sends it to \<open>failed\<close>, all instances are
  then failed, the machine goes to \<open>failed\<close> and the final \<open>start\<close> to \<open>starting\<close>.
\<close>

theorem degraded_start_goes_starting:
  "machine (service_heap degraded_unrenderable_world 1) = Some Svc_degraded
   \<and> map_option (\<lambda>w'. machine (service_heap w' 1))
       (returned (service_start 1 degraded_unrenderable_world)) = Some (Some Svc_starting)"
proof -
  have n: "nat 1 = Suc 0" by simp
  have c: "instances (service_heap (clear_failed_instances 1
      (update_service 1 (\<lambda>v. v\<lparr>restart_timer := None\<rparr>) degraded_unrenderable_world)) 1) = []"
    by (simp add: clear_failed_instances_def degraded_unrenderable_world_def deployment_defs)
  show ?thesis
    unfolding service_start_def Let_def c
    by (simp add: n returned_def clear_failed_instances_def degraded_unrenderable_world_def
        service_model_defs deployment_defs)
qed

section \<open>Properties of the scheduling control loop\<close>

lemma split_microseconds:
  fixes d :: int
  shows "((d div 86400000000) * 86400 + (d mod 86400000000) div 1000000) * 1000000
           + d mod 1000000 = d"
proof -
  define q where "q = d div 86400000000"
  define r where "r = d mod 86400000000"
  define q2 where "q2 = r div 1000000"
  define r2 where "r2 = r mod 1000000"
  have 1: "d = q * 86400000000 + r"
    by (simp add: q_def r_def)
  have 2: "r = q2 * 1000000 + r2"
    by (simp add: q2_def r2_def)
  have 3: "r2 = d mod 1000000"
    unfolding r2_def r_def by (rule mod_mod_cancel) simp
  have "(q * 86400 + q2) * 1000000 + r2 = d"
    by (simp add: 1 2 algebra_simps)
  then show ?thesis
    by (simp only: q_def [symmetric] r_def [symmetric] q2_def [symmetric] 3 [symmetric])
qed

lemma datetime_sub_seconds:
  "real_of_int (days (datetime_sub a b) * SECS_PER_DAY + seconds (datetime_sub a b))
   + real_of_int (microseconds (datetime_sub a b)) * MICRO_SEC
   = real_of_int (a - b) / 1000000"
proof -
  define d where "d = a - b"
  define hi where "hi = (d div 86400000000) * 86400 + (d mod 86400000000) div 1000000"
  define lo where "lo = d mod 1000000"
  have "hi * 1000000 + lo = d"
    unfolding hi_def lo_def by (rule split_microseconds)
  then have "real_of_int d = real_of_int hi * 1000000 + real_of_int lo"
    by (metis of_int_add of_int_mult of_int_numeral)
  then have "real_of_int hi + real_of_int lo * (1 / 1000000) = real_of_int d / 1000000"
    by simp
  then show ?thesis
    unfolding datetime_sub_def Let_def SECS_PER_DAY_def MICRO_SEC_def d_def [symmetric]
    by (simp add: hi_def lo_def)
qed

lemma sleep_time_eq: "sleep_time now rt = max 0 (real_of_int (rt - now) / 1000000)"
  unfolding sleep_time_def Let_def by (simp only: datetime_sub_seconds)

text \<open>
  Claim C9. \<open>sleep_time(run_time)\<close> is \<open>max(0, run_time - now)\<close> in seconds, to the
  microsecond: it is exactly 0 for a run time at or before the current time, it is the
  distance in seconds for a run time in the future, and it is monotone in the run time.
  (The floating-point arithmetic is read as exact arithmetic.)
\<close>

theorem sleep_time_max_zero:
  "sleep_time now rt = max 0 (real_of_int (rt - now) / 1000000)
   \<and> (rt \<le> now \<longrightarrow> sleep_time now rt = 0)
   \<and> (0 \<le> d \<longrightarrow> sleep_time now (now + d) = real_of_int d / 1000000)
   \<and> (rt \<le> rt' \<longrightarrow> sleep_time now rt \<le> sleep_time now rt')"
  by (auto simp: sleep_time_eq max_def divide_right_mono field_simps)

theorem sleep_time_max_zero_witness:
  "sleep_time 5000000 3000000 = 0
   \<and> sleep_time 5000000 (5000000 + 2500000) = 5 / 2
   \<and> sleep_time 5000000 3000000 \<le> sleep_time 5000000 7500000"
  using sleep_time_max_zero [of 5000000 3000000 2500000 7500000] by simp

lemma store_data_skips:
  "writing_enabled h \<Longrightarrow> write_pid h = Some p \<Longrightarrow> p \<noteq> 0 \<Longrightarrow> waitpid p = 0 \<Longrightarrow>
     store_data waitpid pid h = h"
  by (simp add: store_data_def)

text \<open>
  Claim C2. When \<open>store_data\<close> is called with writing enabled while the previous writer
  (pid 42) still runs, no second writer is forked; the claim says the periodic re-arm
  still occurs, but the call returns before it: no timer is armed and the handler is
  left as it was.
\<close>

theorem store_data_outstanding_write_not_rearmed:
  "store_data (\<lambda>p. 0) 43
     \<lparr>write_pid = Some 42, writing_enabled = True, forked = [42],
      handler_call_later = [], written = 0, exited = False\<rparr>
   = \<lparr>write_pid = Some 42, writing_enabled = True, forked = [42],
      handler_call_later = [], written = 0, exited = False\<rparr>"
  by (simp add: store_data_def)

theorem store_data_outstanding_write_witness:
  "handler_call_later
     (store_data (\<lambda>p. 0) 43
        \<lparr>write_pid = Some 42, writing_enabled = True, forked = [42],
         handler_call_later = [], written = 0, exited = False\<rparr>) = []
   \<and> forked
     (store_data (\<lambda>p. 0) 43
        \<lparr>write_pid = Some 42, writing_enabled = True, forked = [42],
         handler_call_later = [], written = 0, exited = False\<rparr>) = [42]"
  by (simp add: store_data_outstanding_write_not_rearmed)

lemma schedule_runs:
  "runs j \<noteq> [] \<Longrightarrow> is_scheduled (hd (runs j)) \<Longrightarrow>
     runs (snd (schedule r (m, j))) \<noteq> [] \<and> is_scheduled (hd (runs (snd (schedule r (m, j)))))"
  by (simp add: schedule_def current_time_def set_run_time_def Let_def hd_map)

lemma schedule_call_later:
  "length (reactor_call_later (fst (schedule r (m, j)))) = Suc (length (reactor_call_later m))"
  by (simp add: schedule_def current_time_def set_run_time_def Let_def)

lemma schedule_next_run_pending:
  "runs j \<noteq> [] \<Longrightarrow> is_scheduled (hd (runs j)) \<Longrightarrow> schedule_next_run nr (m, j) = (m, j)"
  by (simp add: schedule_next_run_def)

text \<open>
  Claim C8. \<open>schedule_next_run\<close> does nothing for a job whose first run is scheduled;
  so when the first call scheduled a run that the job now holds as its pending
  scheduled run, a second call in succession changes nothing, and exactly one timer has
  been armed.
\<close>

theorem schedule_next_run_idempotent:
  "(runs j \<noteq> [] \<and> is_scheduled (hd (runs j)) \<longrightarrow> schedule_next_run nr (m, j) = (m, j))
   \<and> (\<not> (runs j \<noteq> [] \<and> is_scheduled (hd (runs j)))
        \<and> nr j = (Some r, j1) \<and> runs j1 \<noteq> [] \<and> is_scheduled (hd (runs j1))
      \<longrightarrow> schedule_next_run nr (schedule_next_run nr (m, j)) = schedule_next_run nr (m, j)
          \<and> length (reactor_call_later (fst (schedule_next_run nr (schedule_next_run nr (m, j)))))
              = Suc (length (reactor_call_later m)))"
proof (intro conjI impI)
  assume "runs j \<noteq> [] \<and> is_scheduled (hd (runs j))"
  then show "schedule_next_run nr (m, j) = (m, j)"
    by (simp add: schedule_next_run_pending)
next
  assume a: "\<not> (runs j \<noteq> [] \<and> is_scheduled (hd (runs j)))
        \<and> nr j = (Some r, j1) \<and> runs j1 \<noteq> [] \<and> is_scheduled (hd (runs j1))"
  let ?m1 = "m\<lparr>scheduling_log := scheduling_log m @ job_name j1 # []\<rparr>"
  have first: "schedule_next_run nr (m, j) = schedule r (?m1, j1)"
    using a by (auto simp: schedule_next_run_def)
  have pending: "runs (snd (schedule r (?m1, j1))) \<noteq> []
      \<and> is_scheduled (hd (runs (snd (schedule r (?m1, j1)))))"
    using a schedule_runs by blast
  have second: "schedule_next_run nr (schedule r (?m1, j1)) = schedule r (?m1, j1)"
    using pending schedule_next_run_pending [of "snd (schedule r (?m1, j1))" nr
        "fst (schedule r (?m1, j1))"]
    by simp
  show "schedule_next_run nr (schedule_next_run nr (m, j)) = schedule_next_run nr (m, j)"
    by (simp add: first second)
  show "length (reactor_call_later (fst (schedule_next_run nr (schedule_next_run nr (m, j)))))
          = Suc (length (reactor_call_later m))"
    by (simp add: first second schedule_call_later)
qed

theorem schedule_next_run_idempotent_witness:
  "schedule_next_run nightly_next_run
     (schedule_next_run nightly_next_run (idle_mcp, \<lparr>job_name = ''nightly'', enabled = True, runs = []\<rparr>))
   = schedule_next_run nightly_next_run (idle_mcp, \<lparr>job_name = ''nightly'', enabled = True, runs = []\<rparr>)
   \<and> length (reactor_call_later (fst (schedule_next_run nightly_next_run
       (schedule_next_run nightly_next_run
          (idle_mcp, \<lparr>job_name = ''nightly'', enabled = True, runs = []\<rparr>)))))
     = Suc (length (reactor_call_later idle_mcp))"
proof -
  let ?j = "\<lparr>job_name = ''nightly'', enabled = True, runs = []\<rparr>"
  let ?r = "\<lparr>run_id = 1, run_time = 10, is_scheduled = True\<rparr>"
  let ?j1 = "?j\<lparr>runs := ?r # runs ?j\<rparr>"
  have h: "\<not> (runs ?j \<noteq> [] \<and> is_scheduled (hd (runs ?j)))
        \<and> nightly_next_run ?j = (Some ?r, ?j1) \<and> runs ?j1 \<noteq> [] \<and> is_scheduled (hd (runs ?j1))"
    by (simp add: nightly_next_run_def)
  from schedule_next_run_idempotent [of ?j nightly_next_run idle_mcp ?r ?j1] h
  show ?thesis by blast
qed

end
